theory Spec2Isabelle
  imports Main "HOL-Library.Word" "HOL-Library.Monad_Syntax"
begin

unbundle bit_operations_syntax

section \<open>The LightWare serial protocol engine (lw\_serial\_api)\<close>

text \<open>
  The development embeds the packet layer of \<^verbatim>\<open>lw_serial_api.c\<close>: the checksum,
  the packet builder, the byte-at-a-time response decoder and the managed
  request/response loop.  C's fixed-width unsigned integers are words of the same
  width; the byte arrays are lists of bytes.  An access outside an array is undefined
  in C: in the model it is the value \<open>None\<close>, so that a result \<open>Some \<dots>\<close> also says
  that every access stayed inside its buffer.
\<close>

subsection \<open>Result codes, parse states, buffers\<close>

datatype lw_result =
    LW_RESULT_SUCCESS
  | LW_RESULT_ERROR
  | LW_RESULT_AGAIN
  | LW_RESULT_TIMEOUT
  | LW_RESULT_EXCEEDED_RETRIES
  | LW_RESULT_INVALID_PARAMETER
  | LW_RESULT_INCORRECT_COMMAND_ID

datatype lw_packet_parse_state =
    LW_PARSESTATE_START
  | LW_PARSESTATE_FLAGS1
  | LW_PARSESTATE_FLAGS2
  | LW_PARSESTATE_PAYLOAD
  | LW_PARSESTATE_DONE

definition LW_PACKET_START_BYTE :: "8 word" where
  "LW_PACKET_START_BYTE = 0xAA"

definition LW_PACKET_SEND_SIZE :: nat where
  "LW_PACKET_SEND_SIZE = 160"

text \<open>The receive capacity of the default build (\<^verbatim>\<open>LW_LARGE_PACKETS\<close> not defined).\<close>

definition LW_PACKET_RECV_SIZE :: nat where
  "LW_PACKET_RECV_SIZE = 64"

text \<open>Checked array accesses: \<open>None\<close> outside the array.\<close>

definition load :: "8 word list \<Rightarrow> nat \<Rightarrow> 8 word option" where
  "load buf i = (if i < length buf then Some (buf ! i) else None)"

definition store :: "8 word list \<Rightarrow> nat \<Rightarrow> 8 word \<Rightarrow> 8 word list option" where
  "store buf i v = (if i < length buf then Some (buf[i := v]) else None)"

text \<open>
  \<^verbatim>\<open>memcpy(dst + off, src, n)\<close>: \<open>None\<close> when the source or the destination is
  shorter than the copy.
\<close>

definition memcpy :: "8 word list \<Rightarrow> nat \<Rightarrow> 8 word list \<Rightarrow> nat \<Rightarrow> 8 word list option" where
  "memcpy dst off src n =
     (if off + n \<le> length dst \<and> n \<le> length src
      then Some (take off dst @ take n src @ drop (off + n) dst)
      else None)"

subsection \<open>Checksum\<close>

text \<open>The body of the loop of \<^verbatim>\<open>lw_create_crc\<close>, statement by statement.\<close>

definition lw_create_crc_step :: "16 word \<Rightarrow> 8 word \<Rightarrow> 16 word" where
  "lw_create_crc_step crc0 b =
     (let code = drop_bit 8 crc0;
          code = code XOR ucast b;
          code = code XOR drop_bit 4 code;
          crc = push_bit 8 crc0;
          crc = crc XOR code;
          code = push_bit 5 code;
          crc = crc XOR code;
          code = push_bit 7 code;
          crc = crc XOR code
      in crc)"

text \<open>
  \<^verbatim>\<open>lw_create_crc(data, size)\<close> reads \<open>data[0]\<close> to \<open>data[size - 1]\<close> in order,
  from the accumulator 0.
\<close>

definition lw_create_crc :: "8 word list \<Rightarrow> 16 word \<Rightarrow> 16 word option" where
  "lw_create_crc data_buf sz =
     (if unat sz \<le> length data_buf
      then Some (fold (\<lambda>b crc. lw_create_crc_step crc b) (take (unat sz) data_buf) 0)
      else None)"

text \<open>
  The checksum in the words of the specification (section 4.1): \<open>code\<close> is assigned in
  steps 1 and 2 only, and steps 4 and 5 shift that same \<open>code\<close> by 5 and by 7.
\<close>

definition spec_checksum_step :: "16 word \<Rightarrow> 8 word \<Rightarrow> 16 word" where
  "spec_checksum_step crc0 b =
     (let code = drop_bit 8 crc0 XOR ucast b;
          code = code XOR drop_bit 4 code;
          crc = push_bit 8 crc0 XOR code;
          crc = crc XOR push_bit 5 code;
          crc = crc XOR push_bit 7 code
      in crc)"

primrec spec_checksum_from :: "16 word \<Rightarrow> 8 word list \<Rightarrow> 16 word" where
  "spec_checksum_from crc [] = crc"
| "spec_checksum_from crc (b # bs) = spec_checksum_from (spec_checksum_step crc b) bs"

definition spec_checksum :: "8 word list \<Rightarrow> 16 word" where
  "spec_checksum bs = spec_checksum_from 0 bs"

text \<open>
  The same algorithm with the last step amended: the second shift acts on the already
  shifted \<open>code\<close>, twelve bits in all.
\<close>

definition ccitt_checksum_step :: "16 word \<Rightarrow> 8 word \<Rightarrow> 16 word" where
  "ccitt_checksum_step crc0 b =
     (let code = drop_bit 8 crc0 XOR ucast b;
          code = code XOR drop_bit 4 code;
          crc = push_bit 8 crc0 XOR code;
          crc = crc XOR push_bit 5 code;
          crc = crc XOR push_bit 12 code
      in crc)"

primrec ccitt_checksum_from :: "16 word \<Rightarrow> 8 word list \<Rightarrow> 16 word" where
  "ccitt_checksum_from crc [] = crc"
| "ccitt_checksum_from crc (b # bs) = ccitt_checksum_from (ccitt_checksum_step crc b) bs"

definition ccitt_checksum :: "8 word list \<Rightarrow> 16 word" where
  "ccitt_checksum bs = ccitt_checksum_from 0 bs"

subsection \<open>Requests and responses\<close>

text \<open>
  The C structs \<^verbatim>\<open>lw_request\<close> and \<^verbatim>\<open>lw_response\<close>.  Both have fields named
  \<^verbatim>\<open>data\<close>, \<^verbatim>\<open>data_size\<close> and \<^verbatim>\<open>command_id\<close>; those of the request carry the
  prefix \<open>request_\<close> here.
\<close>

record lw_request =
  request_data :: "8 word list"
  request_data_size :: "32 word"
  request_command_id :: "8 word"

record lw_response =
  data :: "8 word list"
  data_size :: "32 word"
  payload_size :: "32 word"
  parse_state :: lw_packet_parse_state
  command_id :: "8 word"

definition lw_init_response :: "lw_response \<Rightarrow> lw_response" where
  "lw_init_response response =
     response\<lparr>data_size := 0, payload_size := 0,
       parse_state := LW_PARSESTATE_START, command_id := 0xFF\<rparr>"

subsection \<open>The response decoder\<close>

text \<open>
  \<^verbatim>\<open>lw_feed_response(response, data)\<close> returns the result code and the updated
  response.  The branches follow the \<^verbatim>\<open>switch\<close> of the source, entered after the
  reinitialisation of a response left in \<^verbatim>\<open>LW_PARSESTATE_DONE\<close>.
\<close>

definition lw_feed_response :: "lw_response \<Rightarrow> 8 word \<Rightarrow> (lw_result \<times> lw_response) option" where
  "lw_feed_response response0 byte =
     (let response =
            (if parse_state response0 = LW_PARSESTATE_DONE
             then lw_init_response response0 else response0)
      in case parse_state response of
        LW_PARSESTATE_START \<Rightarrow>
          if byte = LW_PACKET_START_BYTE then
            do {
              d \<leftarrow> store (data response) 0 LW_PACKET_START_BYTE;
              Some (LW_RESULT_AGAIN,
                    response\<lparr>parse_state := LW_PARSESTATE_FLAGS1, data := d\<rparr>)
            }
          else Some (LW_RESULT_AGAIN, response)
      | LW_PARSESTATE_FLAGS1 \<Rightarrow>
          do {
            d \<leftarrow> store (data response) 1 byte;
            Some (LW_RESULT_AGAIN,
                  response\<lparr>parse_state := LW_PARSESTATE_FLAGS2, data := d\<rparr>)
          }
      | LW_PARSESTATE_FLAGS2 \<Rightarrow>
          do {
            d \<leftarrow> store (data response) 2 byte;
            lo \<leftarrow> load d 1;
            hi \<leftarrow> load d 2;
            let psize = drop_bit 6 ((ucast lo OR push_bit 8 (ucast hi)) :: 32 word);
            let response = response\<lparr>parse_state := LW_PARSESTATE_PAYLOAD, data := d,
                                      data_size := 3, payload_size := psize\<rparr>;
            Some (LW_RESULT_AGAIN,
                  if psize > of_nat (LW_PACKET_RECV_SIZE - 5) \<or> psize < 1
                  then response\<lparr>parse_state := LW_PARSESTATE_START\<rparr>
                  else response)
          }
      | LW_PARSESTATE_PAYLOAD \<Rightarrow>
          do {
            d \<leftarrow> store (data response) (unat (data_size response)) byte;
            let response = response\<lparr>data := d, data_size := data_size response + 1\<rparr>;
            if data_size response = payload_size response + 5 then
              do {
                lo \<leftarrow> load d (unat (data_size response - 2));
                hi \<leftarrow> load d (unat (data_size response - 1));
                let crc = ((ucast lo OR push_bit 8 (ucast hi)) :: 16 word);
                verify_crc \<leftarrow> lw_create_crc d (ucast (data_size response - 2));
                if crc = verify_crc then
                  do {
                    c \<leftarrow> load d 3;
                    Some (LW_RESULT_SUCCESS,
                          response\<lparr>parse_state := LW_PARSESTATE_DONE, command_id := c\<rparr>)
                  }
                else Some (LW_RESULT_AGAIN, response\<lparr>parse_state := LW_PARSESTATE_START\<rparr>)
              }
            else Some (LW_RESULT_AGAIN, response)
          }
      | LW_PARSESTATE_DONE \<Rightarrow> Some (LW_RESULT_ERROR, response))"

text \<open>
  The caller's loop: the bytes of a stream fed one at a time to the same response,
  with the result code of every call.
\<close>

fun feed_bytes :: "lw_response \<Rightarrow> 8 word list \<Rightarrow> (lw_result list \<times> lw_response) option" where
  "feed_bytes response [] = Some ([], response)"
| "feed_bytes response (b # bs) =
     do {
       (res, response') \<leftarrow> lw_feed_response response b;
       (rs, response'') \<leftarrow> feed_bytes response' bs;
       Some (res # rs, response'')
     }"

subsection \<open>The packet builder and the payload extractor\<close>

text \<open>
  \<^verbatim>\<open>lw_create_packet\<close> writes the packet into \<open>packet_buffer\<close> and returns its length;
  the two bytes of \<open>flags\<close> and of \<open>crc\<close> are taken low byte first, as the comments of
  the source name them (a little-endian host).
\<close>

definition lw_create_packet ::
  "8 word list \<Rightarrow> 8 word \<Rightarrow> 8 word \<Rightarrow> 8 word list \<Rightarrow> 32 word \<Rightarrow> (32 word \<times> 8 word list) option" where
  "lw_create_packet packet_buffer cmd write data_in dsize =
     (let payload_length = 1 + dsize;
          flags = (ucast (push_bit 6 payload_length OR ucast (write AND 1)) :: 16 word)
      in do {
        buf \<leftarrow> store packet_buffer 0 LW_PACKET_START_BYTE;
        buf \<leftarrow> store buf 1 (ucast flags);
        buf \<leftarrow> store buf 2 (ucast (drop_bit 8 flags));
        buf \<leftarrow> store buf 3 cmd;
        buf \<leftarrow> memcpy buf 4 data_in (unat dsize);
        crc \<leftarrow> lw_create_crc buf (ucast (4 + dsize));
        buf \<leftarrow> store buf (unat (4 + dsize)) (ucast crc);
        buf \<leftarrow> store buf (unat (5 + dsize)) (ucast (drop_bit 8 crc));
        Some (6 + dsize, buf)
      })"

text \<open>\<^verbatim>\<open>lw_parse_packet_data\<close> copies \<open>sz\<close> bytes from behind the four header bytes.\<close>

definition lw_parse_packet_data ::
  "8 word list \<Rightarrow> 8 word list \<Rightarrow> 32 word \<Rightarrow> 32 word \<Rightarrow> 8 word list option" where
  "lw_parse_packet_data packet_buffer data_out sz offset =
     memcpy data_out 0 (drop (4 + unat offset) packet_buffer) (unat sz)"

subsection \<open>The managed request/response loop\<close>



definition LW_ANY_COMMAND :: "8 word" where
  "LW_ANY_COMMAND = 255"

text \<open>
  The struct \<^verbatim>\<open>lw_callback_device_s\<close>.  The platform behind the callbacks is a state
  of an arbitrary type \<open>'e\<close>, held in \<open>user_data\<close>; every callback takes it and returns
  it updated.  \<open>serial_send\<close> takes the buffer and the size and returns the number of
  bytes sent.  \<open>serial_receive\<close> takes the size and the timeout and returns its
  \<^verbatim>\<open>int32_t\<close> count (a word read as signed by \<open>sint\<close>) together with the content of
  the one-byte buffer after the call.
\<close>

record 'e lw_callback_device =
  user_data :: 'e
  sleep :: "'e \<Rightarrow> 32 word \<Rightarrow> 'e"
  get_time_ms :: "'e \<Rightarrow> 32 word \<times> 'e"
  serial_send :: "'e \<Rightarrow> 8 word list \<Rightarrow> 32 word \<Rightarrow> 32 word \<times> 'e"
  serial_receive :: "'e \<Rightarrow> 32 word \<Rightarrow> 32 word \<Rightarrow> (32 word \<times> 8 word) \<times> 'e"
  request :: lw_request
  response :: lw_response

text \<open>
  The \<^verbatim>\<open>while (1)\<close> loop of \<^verbatim>\<open>lw_wait_for_next_response\<close>, one iteration per
  unfolding.  The result \<open>None\<close> says that the call yields no result: the loop runs
  forever (or the decoder leaves its buffer).
\<close>

partial_function (option) lw_wait_loop ::
  "'e lw_callback_device \<Rightarrow> 8 word \<Rightarrow> 32 word \<Rightarrow> 32 word \<Rightarrow>
     (lw_result \<times> 'e lw_callback_device) option" where
  "lw_wait_loop device cmd timeout_ms timeout_time =
     (let (current_time, e1) =
            (if timeout_ms \<noteq> 0 then get_time_ms device (user_data device)
             else (0, user_data device));
          time_left_ms =
            (if timeout_ms \<noteq> 0 \<and> current_time < timeout_time
             then timeout_time - current_time else 0);
          ((bytes_read, byte), e2) = serial_receive device e1 1 time_left_ms;
          device = device\<lparr>user_data := e2\<rparr>
      in if sint bytes_read = - 1 then Some (LW_RESULT_ERROR, device)
         else if 0 < sint bytes_read then
           (case lw_feed_response (response device) byte of
              None \<Rightarrow> None
            | Some (res, response') \<Rightarrow>
                if res = LW_RESULT_SUCCESS \<and>
                   (cmd = LW_ANY_COMMAND \<or> command_id response' = cmd)
                then Some (LW_RESULT_SUCCESS, device\<lparr>response := response'\<rparr>)
                else lw_wait_loop (device\<lparr>response := response'\<rparr>) cmd timeout_ms timeout_time)
         else if timeout_ms = 0 then Some (LW_RESULT_AGAIN, device)
         else if time_left_ms = 0 then Some (LW_RESULT_TIMEOUT, device)
         else lw_wait_loop device cmd timeout_ms timeout_time)"

definition lw_wait_for_next_response ::
  "'e lw_callback_device \<Rightarrow> 8 word \<Rightarrow> 32 word \<Rightarrow> (lw_result \<times> 'e lw_callback_device) option" where
  "lw_wait_for_next_response device cmd timeout_ms =
     (let (timeout_time, e0) =
            (if timeout_ms \<noteq> 0
             then (let (now, e) = get_time_ms device (user_data device) in (now + timeout_ms, e))
             else (0, user_data device))
      in lw_wait_loop (device\<lparr>user_data := e0\<rparr>) cmd timeout_ms timeout_time)"



subsection \<open>A scripted transport\<close>

text \<open>
  A transport double for concrete runs: the clock readings and the results of the
  receive calls are scripts consumed from the front, and every send is counted.  The
  last clock reading repeats; a receive after the end of its script has no data; a send
  reports the whole buffer sent.
\<close>

record script =
  clock :: "32 word list"
  rx :: "(32 word \<times> 8 word) list"
  sends :: nat

definition script_get_time_ms :: "script \<Rightarrow> 32 word \<times> script" where
  "script_get_time_ms e =
     (case clock e of
        [] \<Rightarrow> (0, e)
      | [t] \<Rightarrow> (t, e)
      | t # ts \<Rightarrow> (t, e\<lparr>clock := ts\<rparr>))"

definition script_serial_receive :: "script \<Rightarrow> 32 word \<Rightarrow> 32 word \<Rightarrow> (32 word \<times> 8 word) \<times> script" where
  "script_serial_receive e sz timeout_ms =
     (case rx e of
        [] \<Rightarrow> ((0, 0), e)
      | x # xs \<Rightarrow> (x, e\<lparr>rx := xs\<rparr>))"

definition script_serial_send :: "script \<Rightarrow> 8 word list \<Rightarrow> 32 word \<Rightarrow> 32 word \<times> script" where
  "script_serial_send e buf sz = (sz, e\<lparr>sends := Suc (sends e)\<rparr>)"

definition script_device :: "script \<Rightarrow> lw_request \<Rightarrow> script lw_callback_device" where
  "script_device e req =
     \<lparr>user_data = e, sleep = (\<lambda>e t. e), get_time_ms = script_get_time_ms,
      serial_send = script_serial_send, serial_receive = script_serial_receive,
      request = req,
      response = lw_init_response
        \<lparr>data = replicate LW_PACKET_RECV_SIZE 0, data_size = 0, payload_size = 0,
         parse_state = LW_PARSESTATE_START, command_id = 0\<rparr>\<rparr>"






declare lw_wait_loop.simps [code]

subsection \<open>Auxiliary notions for the statements\<close>

text \<open>The payload length that the decoder reads from the two flag bytes.\<close>

definition declared_payload_size :: "8 word \<Rightarrow> 8 word \<Rightarrow> 32 word" where
  "declared_payload_size lo hi = drop_bit 6 (ucast lo OR push_bit 8 (ucast hi))"

text \<open>
  The bounds under which the decoder writes: the buffer has its declared capacity and,
  while a payload is being read, the count of stored bytes is below the length of the
  whole packet, which fits the buffer.
\<close>

definition response_inv :: "lw_response \<Rightarrow> bool" where
  "response_inv r \<longleftrightarrow>
     length (data r) = LW_PACKET_RECV_SIZE \<and>
     (parse_state r = LW_PARSESTATE_PAYLOAD \<longrightarrow>
        unat (data_size r) < unat (payload_size r) + 5 \<and>
        unat (payload_size r) + 5 \<le> LW_PACKET_RECV_SIZE)"

text \<open>
  Two responses hold the same packet progress: the same parse state and the same bytes
  of the packet under way; nothing is under way in the states START and DONE.
\<close>

definition same_progress :: "lw_response \<Rightarrow> lw_response \<Rightarrow> bool" where
  "same_progress r1 r2 \<longleftrightarrow>
     response_inv r1 \<and> response_inv r2 \<and>
     (case parse_state r1 of
        LW_PARSESTATE_START \<Rightarrow>
          parse_state r2 = LW_PARSESTATE_START \<or> parse_state r2 = LW_PARSESTATE_DONE
      | LW_PARSESTATE_DONE \<Rightarrow>
          parse_state r2 = LW_PARSESTATE_START \<or> parse_state r2 = LW_PARSESTATE_DONE
      | LW_PARSESTATE_FLAGS1 \<Rightarrow>
          parse_state r2 = LW_PARSESTATE_FLAGS1 \<and> take 1 (data r1) = take 1 (data r2)
      | LW_PARSESTATE_FLAGS2 \<Rightarrow>
          parse_state r2 = LW_PARSESTATE_FLAGS2 \<and> take 2 (data r1) = take 2 (data r2)
      | LW_PARSESTATE_PAYLOAD \<Rightarrow>
          parse_state r2 = LW_PARSESTATE_PAYLOAD \<and> data_size r1 = data_size r2 \<and>
          payload_size r1 = payload_size r2 \<and>
          take (unat (data_size r1)) (data r1) = take (unat (data_size r2)) (data r2))"


section \<open>Word arithmetic on small values\<close>

lemma unat_plus_small:
  fixes x :: "32 word"
  shows "unat x + n < 2 ^ 32 \<Longrightarrow> unat (x + of_nat n) = unat x + n"
  by (simp add: unat_word_ariths unat_of_nat take_bit_nat_eq_self)

lemma unat_succ_small:
  fixes x :: "32 word"
  shows "unat x < 100 \<Longrightarrow> unat (x + 1) = unat x + 1"
  using unat_plus_small [of x 1] by simp

lemma unat_plus5_small:
  fixes x :: "32 word"
  shows "unat x < 100 \<Longrightarrow> unat (x + 5) = unat x + 5"
  using unat_plus_small [of x 5] by simp

lemma unat_minus_small:
  fixes x :: "32 word"
  shows "n \<le> unat x \<Longrightarrow> unat (x - of_nat n) = unat x - n"
  by (metis (no_types, opaque_lifting) le_unat_uoi unat_sub word_le_nat_alt)

lemma ucast16_small:
  fixes x :: "32 word"
  shows "unat x < 65536 \<Longrightarrow> unat (ucast x :: 16 word) = unat x"
  by (simp add: unsigned_ucast_eq take_bit_nat_eq_self)

section \<open>One call of the decoder, state by state\<close>

lemma feed_DONE:
  "parse_state r = LW_PARSESTATE_DONE \<Longrightarrow>
   lw_feed_response r b = lw_feed_response (lw_init_response r) b"
  by (simp add: lw_feed_response_def lw_init_response_def)

lemma feed_START_marker:
  "parse_state r = LW_PARSESTATE_START \<Longrightarrow> 0 < length (data r) \<Longrightarrow>
   lw_feed_response r LW_PACKET_START_BYTE =
     Some (LW_RESULT_AGAIN,
           r\<lparr>parse_state := LW_PARSESTATE_FLAGS1, data := (data r)[0 := LW_PACKET_START_BYTE]\<rparr>)"
  by (simp add: lw_feed_response_def store_def)

lemma feed_START_other:
  "parse_state r = LW_PARSESTATE_START \<Longrightarrow> b \<noteq> LW_PACKET_START_BYTE \<Longrightarrow>
   lw_feed_response r b = Some (LW_RESULT_AGAIN, r)"
  by (simp add: lw_feed_response_def)

lemma feed_FLAGS1:
  "parse_state r = LW_PARSESTATE_FLAGS1 \<Longrightarrow> 1 < length (data r) \<Longrightarrow>
   lw_feed_response r b =
     Some (LW_RESULT_AGAIN, r\<lparr>parse_state := LW_PARSESTATE_FLAGS2, data := (data r)[1 := b]\<rparr>)"
  by (simp add: lw_feed_response_def store_def)

lemma feed_FLAGS2:
  "parse_state r = LW_PARSESTATE_FLAGS2 \<Longrightarrow> 2 < length (data r) \<Longrightarrow>
   lw_feed_response r b =
     Some (LW_RESULT_AGAIN,
       r\<lparr>parse_state :=
            (if declared_payload_size (data r ! 1) b > of_nat (LW_PACKET_RECV_SIZE - 5) \<or>
                declared_payload_size (data r ! 1) b < 1
             then LW_PARSESTATE_START else LW_PARSESTATE_PAYLOAD),
         data := (data r)[2 := b], data_size := 3,
         payload_size := declared_payload_size (data r ! 1) b\<rparr>)"
  by (simp add: lw_feed_response_def store_def load_def declared_payload_size_def Let_def)

lemma feed_PAYLOAD_more:
  "parse_state r = LW_PARSESTATE_PAYLOAD \<Longrightarrow> unat (data_size r) < length (data r) \<Longrightarrow>
   data_size r + 1 \<noteq> payload_size r + 5 \<Longrightarrow>
   lw_feed_response r b =
     Some (LW_RESULT_AGAIN,
           r\<lparr>data := (data r)[unat (data_size r) := b], data_size := data_size r + 1\<rparr>)"
  by (simp add: lw_feed_response_def store_def load_def Let_def)

lemma feed_PAYLOAD_last:
  assumes ps: "parse_state r = LW_PARSESTATE_PAYLOAD"
    and len: "length (data r) = LW_PACKET_RECV_SIZE"
    and k: "unat (data_size r) = unat (payload_size r) + 4"
    and p: "unat (payload_size r) + 5 \<le> LW_PACKET_RECV_SIZE"
    and d: "d = (data r)[unat (data_size r) := b]"
    and n: "n = unat (payload_size r) + 3"
    and ok: "ok \<longleftrightarrow> (ucast (d ! n) OR push_bit 8 (ucast (d ! (n + 1))) :: 16 word)
                     = fold (\<lambda>b crc. lw_create_crc_step crc b) (take n d) 0"
  shows "lw_feed_response r b =
     Some (if ok then LW_RESULT_SUCCESS else LW_RESULT_AGAIN,
           r\<lparr>data := d, data_size := data_size r + 1,
             parse_state := (if ok then LW_PARSESTATE_DONE else LW_PARSESTATE_START),
             command_id := (if ok then d ! 3 else command_id r)\<rparr>)"
proof -
  have p': "unat (payload_size r) \<le> 59" using p by (simp add: LW_PACKET_RECV_SIZE_def)
  have u1: "unat (data_size r + 1) = unat (payload_size r) + 5"
    using k p' unat_succ_small [of "data_size r"] by simp
  have u5: "unat (payload_size r + 5) = unat (payload_size r) + 5"
    using p' by (intro unat_plus5_small) simp
  have eq: "data_size r + 1 = payload_size r + 5"
    using u1 u5 by (simp add: word_unat_eq_iff)
  have m2: "unat (data_size r + 1 - 2) = n"
    using unat_minus_small [of 2 "data_size r + 1"] u1 n by simp
  have m1: "unat (data_size r + 1 - 1) = n + 1"
    using k n by simp
  have c: "unat (ucast (data_size r + 1 - 2) :: 16 word) = n"
    using m2 p' n by (simp add: ucast16_small)
  have lend: "length d = 64" using d len by (simp add: LW_PACKET_RECV_SIZE_def)
  have nlt: "n + 1 < 64" using n p' by simp
  have st: "store (data r) (unat (data_size r)) b = Some d"
    using d k p' len by (simp add: store_def LW_PACKET_RECV_SIZE_def)
  have l1: "load d (unat (data_size r + 1 - 2)) = Some (d ! n)"
    unfolding m2 using nlt lend by (simp add: load_def)
  have l2: "load d (unat (data_size r + 1 - 1)) = Some (d ! (n + 1))"
    unfolding m1 using nlt lend by (simp add: load_def)
  have l3: "load d 3 = Some (d ! 3)"
    using lend by (simp add: load_def)
  have crc: "lw_create_crc d (ucast (data_size r + 1 - 2)) =
      Some (fold (\<lambda>b crc. lw_create_crc_step crc b) (take n d) 0)"
    unfolding lw_create_crc_def c using nlt lend by simp
  show ?thesis
    unfolding lw_feed_response_def
    using ps st l1 l2 l3 crc eq ok
    by (simp add: Let_def)
qed

text \<open>In the payload state, under the bounds, the next byte is the last or is not.\<close>

lemma payload_last_or_more:
  assumes "response_inv r" "parse_state r = LW_PARSESTATE_PAYLOAD"
  shows "(data_size r + 1 = payload_size r + 5 \<and> unat (data_size r) = unat (payload_size r) + 4) \<or>
         (data_size r + 1 \<noteq> payload_size r + 5 \<and> unat (data_size r + 1) = unat (data_size r) + 1 \<and> 
            unat (data_size r) + 1 < unat (payload_size r) + 5)"
proof -
  from assms have lt: "unat (data_size r) < unat (payload_size r) + 5"
    and le: "unat (payload_size r) + 5 \<le> 64"
    by (simp_all add: response_inv_def LW_PACKET_RECV_SIZE_def)
  have u1: "unat (data_size r + 1) = unat (data_size r) + 1"
    using lt le by (intro unat_succ_small) simp
  have u5: "unat (payload_size r + 5) = unat (payload_size r) + 5"
    using le by (intro unat_plus5_small) simp
  have "data_size r + 1 = payload_size r + 5 \<longleftrightarrow> unat (data_size r) + 1 = unat (payload_size r) + 5"
    using u1 u5 by (metis word_unat_eq_iff)
  then show ?thesis using lt u1 by auto
qed

section \<open>The bounds are an invariant\<close>

lemma response_inv_init:
  "length (data r) = LW_PACKET_RECV_SIZE \<Longrightarrow> response_inv (lw_init_response r)"
  by (simp add: response_inv_def lw_init_response_def)

lemma feed_inv_aux:
  assumes inv: "response_inv r" and nd: "parse_state r \<noteq> LW_PARSESTATE_DONE"
  shows "\<exists>res r'. lw_feed_response r b = Some (res, r') \<and> response_inv r' \<and>
           (res = LW_RESULT_SUCCESS \<or> res = LW_RESULT_AGAIN)"
proof (cases "parse_state r")
  case LW_PARSESTATE_START
  then show ?thesis using inv
    by (cases "b = LW_PACKET_START_BYTE")
       (simp_all add: feed_START_marker feed_START_other response_inv_def LW_PACKET_RECV_SIZE_def)
next
  case LW_PARSESTATE_FLAGS1
  then show ?thesis using inv
    by (simp add: feed_FLAGS1 response_inv_def LW_PACKET_RECV_SIZE_def)
next
  case LW_PARSESTATE_FLAGS2
  then show ?thesis using inv
    by (simp add: feed_FLAGS2 response_inv_def LW_PACKET_RECV_SIZE_def
          word_less_nat_alt word_le_nat_alt not_less)
next
  case LW_PARSESTATE_PAYLOAD
  note ps = this
  from inv have len: "length (data r) = LW_PACKET_RECV_SIZE"
    and le: "unat (payload_size r) + 5 \<le> LW_PACKET_RECV_SIZE"
    and lt: "unat (data_size r) < unat (payload_size r) + 5"
    using ps by (simp_all add: response_inv_def)
  from payload_last_or_more [OF inv ps] show ?thesis
  proof (elim disjE conjE)
    assume "unat (data_size r) = unat (payload_size r) + 4"
    from feed_PAYLOAD_last [OF ps len this le refl refl refl, of b]
    show ?thesis using len by (auto simp: response_inv_def)
  next
    assume ne: "data_size r + 1 \<noteq> payload_size r + 5"
      and u: "unat (data_size r + 1) = unat (data_size r) + 1"
      and l: "unat (data_size r) + 1 < unat (payload_size r) + 5"
    have "unat (data_size r) < length (data r)" using len le lt by simp
    from feed_PAYLOAD_more [OF ps this ne, of b]
    show ?thesis using inv ps u l by (simp add: response_inv_def)
  qed
next
  case LW_PARSESTATE_DONE
  then show ?thesis using nd by simp
qed

lemma feed_inv:
  assumes inv: "response_inv r"
  shows "\<exists>res r'. lw_feed_response r b = Some (res, r') \<and> response_inv r' \<and>
           (res = LW_RESULT_SUCCESS \<or> res = LW_RESULT_AGAIN)"
proof (cases "parse_state r = LW_PARSESTATE_DONE")
  case True
  have "response_inv (lw_init_response r)"
    using inv by (simp add: response_inv_def lw_init_response_def)
  moreover have "parse_state (lw_init_response r) \<noteq> LW_PARSESTATE_DONE"
    by (simp add: lw_init_response_def)
  ultimately show ?thesis using feed_inv_aux feed_DONE [OF True] by simp
next
  case False
  then show ?thesis using inv feed_inv_aux by blast
qed

lemma feed_bytes_inv:
  "response_inv r \<Longrightarrow>
   \<exists>rs r'. feed_bytes r bs = Some (rs, r') \<and> response_inv r' \<and> length rs = length bs \<and>
     set rs \<subseteq> {LW_RESULT_SUCCESS, LW_RESULT_AGAIN}"
proof (induction bs arbitrary: r)
  case Nil
  then show ?case by simp
next
  case (Cons b bs)
  from feed_inv [OF Cons.prems, of b] obtain res r1 where
    f: "lw_feed_response r b = Some (res, r1)" and i: "response_inv r1"
    and r: "res = LW_RESULT_SUCCESS \<or> res = LW_RESULT_AGAIN" by blast
  from Cons.IH [OF i] obtain rs r2 where
    "feed_bytes r1 bs = Some (rs, r2)" "response_inv r2" "length rs = length bs"
    "set rs \<subseteq> {LW_RESULT_SUCCESS, LW_RESULT_AGAIN}" by blast
  then show ?case using f r by auto
qed

lemma feed_result_cases:
  "lw_feed_response r b = Some (res, r') \<Longrightarrow> res = LW_RESULT_SUCCESS \<or> res = LW_RESULT_AGAIN"
  by (auto simp: lw_feed_response_def lw_init_response_def Let_def
      split: if_splits lw_packet_parse_state.splits bind_splits)

section \<open>Whole frames\<close>

lemma feed_bytes_append:
  "feed_bytes r (xs @ ys) =
     do { (rs, r') \<leftarrow> feed_bytes r xs; (rs', r'') \<leftarrow> feed_bytes r' ys; Some (rs @ rs', r'') }"
  by (induction xs arbitrary: r) (auto split: bind_splits)

lemma feed_bytes_snoc:
  "feed_bytes r xs = Some (rs, r') \<Longrightarrow> lw_feed_response r' b = Some (res, r'') \<Longrightarrow>
   feed_bytes r (xs @ [b]) = Some (rs @ [res], r'')"
  by (simp add: feed_bytes_append)

text \<open>Payload bytes short of the last one are stored one after the other.\<close>

lemma feed_payload_bytes:
  assumes "parse_state r = LW_PARSESTATE_PAYLOAD"
    and "length (data r) = LW_PACKET_RECV_SIZE"
    and "unat (payload_size r) + 5 \<le> LW_PACKET_RECV_SIZE"
    and "unat (data_size r) + length bs < unat (payload_size r) + 5"
  shows "\<exists>r'. feed_bytes r bs = Some (replicate (length bs) LW_RESULT_AGAIN, r') \<and>
           parse_state r' = LW_PARSESTATE_PAYLOAD \<and>
           length (data r') = LW_PACKET_RECV_SIZE \<and>
           payload_size r' = payload_size r \<and>
           command_id r' = command_id r \<and>
           unat (data_size r') = unat (data_size r) + length bs \<and>
           take (unat (data_size r')) (data r') = take (unat (data_size r)) (data r) @ bs"
  using assms
proof (induction bs arbitrary: r)
  case Nil
  then show ?case by simp
next
  case (Cons b bs)
  let ?r1 = "r\<lparr>data := (data r)[unat (data_size r) := b], data_size := data_size r + 1\<rparr>"
  have inv: "response_inv r" using Cons.prems by (simp add: response_inv_def)
  from payload_last_or_more [OF inv Cons.prems(1)] Cons.prems(4)
  have ne: "data_size r + 1 \<noteq> payload_size r + 5"
    and u: "unat (data_size r + 1) = unat (data_size r) + 1" by auto
  have lt: "unat (data_size r) < length (data r)" using Cons.prems by simp
  have f: "lw_feed_response r b = Some (LW_RESULT_AGAIN, ?r1)"
    by (rule feed_PAYLOAD_more [OF Cons.prems(1) lt ne])
  have "\<exists>r'. feed_bytes ?r1 bs = Some (replicate (length bs) LW_RESULT_AGAIN, r') \<and>
           parse_state r' = LW_PARSESTATE_PAYLOAD \<and>
           length (data r') = LW_PACKET_RECV_SIZE \<and>
           payload_size r' = payload_size ?r1 \<and>
           command_id r' = command_id ?r1 \<and>
           unat (data_size r') = unat (data_size ?r1) + length bs \<and>
           take (unat (data_size r')) (data r') = take (unat (data_size ?r1)) (data ?r1) @ bs"
    using Cons.prems u by (intro Cons.IH) simp_all
  then obtain r' where r': "feed_bytes ?r1 bs = Some (replicate (length bs) LW_RESULT_AGAIN, r')"
      "parse_state r' = LW_PARSESTATE_PAYLOAD" "length (data r') = LW_PACKET_RECV_SIZE"
      "payload_size r' = payload_size r" "command_id r' = command_id r"
      "unat (data_size r') = unat (data_size r) + 1 + length bs"
      "take (unat (data_size r')) (data r') =
         take (unat (data_size r) + 1) ((data r)[unat (data_size r) := b]) @ bs"
    using u by auto
  have "take (unat (data_size r) + 1) ((data r)[unat (data_size r) := b]) =
        take (unat (data_size r)) (data r) @ [b]"
    using lt by (simp add: take_Suc_conv_app_nth)
  with r' f show ?case by simp
qed

lemma take3_updates:
  "3 \<le> length xs \<Longrightarrow> take 3 (xs[0 := a, Suc 0 := b, 2 := c]) = [a, b, c]"
  by (cases xs; cases "tl xs"; cases "tl (tl xs)") (auto simp: numeral_3_eq_3 numeral_2_eq_2)

lemma take_length_append: "length xs = n \<Longrightarrow> take n (xs @ ys) = xs"
  by simp

lemma feed_bytes_append_Some:
  "feed_bytes r xs = Some (rs, r') \<Longrightarrow> feed_bytes r' ys = Some (rs', r'') \<Longrightarrow>
   feed_bytes r (xs @ ys) = Some (rs @ rs', r'')"
  by (simp add: feed_bytes_append)

lemma feed_frame_header:
  assumes len: "length (data r) = LW_PACKET_RECV_SIZE"
    and st: "parse_state r = LW_PARSESTATE_START \<or> parse_state r = LW_PARSESTATE_DONE"
    and p1: "1 \<le> unat (declared_payload_size lo hi)"
    and p2: "unat (declared_payload_size lo hi) + 5 \<le> LW_PACKET_RECV_SIZE"
  shows "\<exists>r'. feed_bytes r [LW_PACKET_START_BYTE, lo, hi] =
             Some (replicate 3 LW_RESULT_AGAIN, r') \<and>
           parse_state r' = LW_PARSESTATE_PAYLOAD \<and>
           length (data r') = LW_PACKET_RECV_SIZE \<and>
           data_size r' = 3 \<and>
           payload_size r' = declared_payload_size lo hi \<and>
           take 3 (data r') = [LW_PACKET_START_BYTE, lo, hi] \<and>
           command_id r' =
             (if parse_state r = LW_PARSESTATE_DONE then 0xFF else command_id r)"
proof -
  define r0 where "r0 = (if parse_state r = LW_PARSESTATE_DONE then lw_init_response r else r)"
  have r0: "parse_state r0 = LW_PARSESTATE_START" "length (data r0) = 64"
    "command_id r0 = (if parse_state r = LW_PARSESTATE_DONE then 0xFF else command_id r)"
    using st len by (auto simp: r0_def lw_init_response_def LW_PACKET_RECV_SIZE_def)
  have e0: "lw_feed_response r b = lw_feed_response r0 b" for b
    by (simp add: r0_def feed_DONE)
  define r1 where "r1 = r0\<lparr>parse_state := LW_PARSESTATE_FLAGS1,
                             data := (data r0)[0 := LW_PACKET_START_BYTE]\<rparr>"
  define r2 where "r2 = r1\<lparr>parse_state := LW_PARSESTATE_FLAGS2, data := (data r1)[1 := lo]\<rparr>"
  define r3 where "r3 = r2\<lparr>parse_state := LW_PARSESTATE_PAYLOAD, data := (data r2)[2 := hi],
                             data_size := 3, payload_size := declared_payload_size lo hi\<rparr>"
  have f1: "lw_feed_response r LW_PACKET_START_BYTE = Some (LW_RESULT_AGAIN, r1)"
    unfolding e0 r1_def using r0 by (intro feed_START_marker) simp_all
  have f2: "lw_feed_response r1 lo = Some (LW_RESULT_AGAIN, r2)"
    unfolding r2_def using r0 by (intro feed_FLAGS1) (simp_all add: r1_def)
  have d1: "data r2 ! 1 = lo" using r0 by (simp add: r2_def r1_def)
  have nb: "\<not> (declared_payload_size lo hi > of_nat (LW_PACKET_RECV_SIZE - 5) \<or>
               declared_payload_size lo hi < 1)"
    using p1 p2 by (simp add: word_less_nat_alt LW_PACKET_RECV_SIZE_def)
  have f3: "lw_feed_response r2 hi = Some (LW_RESULT_AGAIN, r3)"
    using feed_FLAGS2 [of r2 hi] nb d1 r0 by (simp add: r3_def r2_def r1_def)
  have t3: "take 3 (data r3) = [LW_PACKET_START_BYTE, lo, hi]"
    using r0 by (simp add: r3_def r2_def r1_def take3_updates)
  have "feed_bytes r [LW_PACKET_START_BYTE, lo, hi] = Some (replicate 3 LW_RESULT_AGAIN, r3)"
    using f1 f2 f3 by (simp add: numeral_3_eq_3)
  moreover have "parse_state r3 = LW_PARSESTATE_PAYLOAD" "data_size r3 = 3"
    "payload_size r3 = declared_payload_size lo hi" "length (data r3) = LW_PACKET_RECV_SIZE"
    "command_id r3 = (if parse_state r = LW_PARSESTATE_DONE then 0xFF else command_id r)"
    using r0 by (simp_all add: r3_def r2_def r1_def LW_PACKET_RECV_SIZE_def)
  ultimately show ?thesis using t3 by blast
qed

lemma feed_frame:
  assumes len: "length (data r) = LW_PACKET_RECV_SIZE"
    and st: "parse_state r = LW_PARSESTATE_START \<or> parse_state r = LW_PARSESTATE_DONE"
    and p: "unat (declared_payload_size lo hi) = length body"
    and p1: "1 \<le> length body"
    and p2: "length body + 5 \<le> LW_PACKET_RECV_SIZE"
    and ok: "ok \<longleftrightarrow> (ucast c1 OR push_bit 8 (ucast c2) :: 16 word) =
               fold (\<lambda>b crc. lw_create_crc_step crc b) ([LW_PACKET_START_BYTE, lo, hi] @ body) 0"
  shows "\<exists>r'. feed_bytes r ([LW_PACKET_START_BYTE, lo, hi] @ body @ [c1, c2]) =
             Some (replicate (length body + 4) LW_RESULT_AGAIN @
                   [if ok then LW_RESULT_SUCCESS else LW_RESULT_AGAIN], r') \<and>
           parse_state r' = (if ok then LW_PARSESTATE_DONE else LW_PARSESTATE_START) \<and>
           length (data r') = LW_PACKET_RECV_SIZE \<and>
           unat (data_size r') = length body + 5 \<and>
           payload_size r' = declared_payload_size lo hi \<and>
           take (length body + 5) (data r') = [LW_PACKET_START_BYTE, lo, hi] @ body @ [c1, c2] \<and>
           (ok \<longrightarrow> command_id r' = hd body)"
proof -
  let ?n = "length body"
  have hp: "1 \<le> unat (declared_payload_size lo hi)"
    "unat (declared_payload_size lo hi) + 5 \<le> LW_PACKET_RECV_SIZE"
    using p p1 p2 by simp_all
  from feed_frame_header [OF len st hp] obtain r3 where
    h: "feed_bytes r [LW_PACKET_START_BYTE, lo, hi] = Some (replicate 3 LW_RESULT_AGAIN, r3)"
    and r3: "parse_state r3 = LW_PARSESTATE_PAYLOAD" "length (data r3) = LW_PACKET_RECV_SIZE"
      "data_size r3 = 3" "payload_size r3 = declared_payload_size lo hi"
      "take 3 (data r3) = [LW_PACKET_START_BYTE, lo, hi]"
    by blast
  have "\<exists>r'. feed_bytes r3 (body @ [c1]) =
             Some (replicate (length (body @ [c1])) LW_RESULT_AGAIN, r') \<and>
           parse_state r' = LW_PARSESTATE_PAYLOAD \<and>
           length (data r') = LW_PACKET_RECV_SIZE \<and>
           payload_size r' = payload_size r3 \<and>
           command_id r' = command_id r3 \<and>
           unat (data_size r') = unat (data_size r3) + length (body @ [c1]) \<and>
           take (unat (data_size r')) (data r') = take (unat (data_size r3)) (data r3) @ (body @ [c1])"
    using r3 p p2 by (intro feed_payload_bytes) simp_all
  then obtain r4 where
    b0: "feed_bytes r3 (body @ [c1]) = Some (replicate (length (body @ [c1])) LW_RESULT_AGAIN, r4)"
    and r40: "parse_state r4 = LW_PARSESTATE_PAYLOAD" "length (data r4) = LW_PACKET_RECV_SIZE"
      "payload_size r4 = payload_size r3"
      "unat (data_size r4) = unat (data_size r3) + length (body @ [c1])"
      "take (unat (data_size r4)) (data r4) = take (unat (data_size r3)) (data r3) @ (body @ [c1])"
    by blast
  have u3: "unat (data_size r3) = 3" using r3 by simp
  have b: "feed_bytes r3 (body @ [c1]) = Some (replicate (?n + 1) LW_RESULT_AGAIN, r4)"
    using b0 by simp
  have r4: "parse_state r4 = LW_PARSESTATE_PAYLOAD" "length (data r4) = LW_PACKET_RECV_SIZE"
      "payload_size r4 = declared_payload_size lo hi"
      "unat (data_size r4) = ?n + 4"
      "take (?n + 4) (data r4) = [LW_PACKET_START_BYTE, lo, hi] @ body @ [c1]"
  proof -
    show "parse_state r4 = LW_PARSESTATE_PAYLOAD" "length (data r4) = LW_PACKET_RECV_SIZE"
      by (rule r40)+
    show "payload_size r4 = declared_payload_size lo hi" using r40 r3 by simp
    show s4: "unat (data_size r4) = ?n + 4" using r40(4) u3 by simp
    show "take (?n + 4) (data r4) = [LW_PACKET_START_BYTE, lo, hi] @ body @ [c1]"
      using r40(5) r3(5) unfolding s4 u3 by simp
  qed
  define d where "d = (data r4)[unat (data_size r4) := c2]"
  have lend: "length d = LW_PACKET_RECV_SIZE" using r4 by (simp add: d_def)
  have t4: "take (?n + 4) d = [LW_PACKET_START_BYTE, lo, hi] @ body @ [c1]"
    using r4 by (simp add: d_def)
  have d4: "d ! (?n + 4) = c2" using r4 p2 by (simp add: d_def)
  have t5: "take (?n + 5) d = [LW_PACKET_START_BYTE, lo, hi] @ body @ [c1, c2]"
  proof -
    have "?n + 5 = Suc (?n + 4)" by arith
    then have "take (?n + 5) d = take (Suc (?n + 4)) d" by (rule arg_cong)
    also have "\<dots> = take (?n + 4) d @ [d ! (?n + 4)]"
      using lend p2 by (intro take_Suc_conv_app_nth) simp
    also have "\<dots> = ([LW_PACKET_START_BYTE, lo, hi] @ body @ [c1]) @ [c2]"
      by (simp only: t4 d4)
    finally show ?thesis by simp
  qed
  have nth: "i < ?n + 5 \<Longrightarrow> d ! i = ([LW_PACKET_START_BYTE, lo, hi] @ body @ [c1, c2]) ! i" for i
    using t5 by (metis nth_take)
  have n3: "d ! (?n + 3) = c1"
    using nth [of "?n + 3"] by (simp add: nth_append)
  have n4: "d ! (?n + 4) = c2"
    using nth [of "?n + 4"] by (simp add: nth_append)
  have c3: "d ! 3 = hd body"
    using nth [of 3] p1 by (cases body) (simp_all add: nth_append numeral_3_eq_3)
  have tn: "take (?n + 3) d = [LW_PACKET_START_BYTE, lo, hi] @ body"
  proof -
    have "take (?n + 3) d = take (?n + 3) (take (?n + 4) d)" by simp
    also have "\<dots> = take (?n + 3) (([LW_PACKET_START_BYTE, lo, hi] @ body) @ [c1])"
      by (simp only: t4 append_assoc)
    also have "\<dots> = [LW_PACKET_START_BYTE, lo, hi] @ body"
      by (rule take_length_append) simp
    finally show ?thesis .
  qed
  have okd: "ok \<longleftrightarrow> (ucast (d ! (?n + 3)) OR push_bit 8 (ucast (d ! (?n + 3 + 1))) :: 16 word)
                     = fold (\<lambda>b crc. lw_create_crc_step crc b) (take (?n + 3) d) 0"
    using ok n3 n4 tn by (simp add: add.commute)
  have k: "unat (data_size r4) = unat (payload_size r4) + 4" using r4 p by simp
  have pp: "unat (payload_size r4) + 5 \<le> LW_PACKET_RECV_SIZE" using r4 p p2 by simp
  have nn: "?n + 3 = unat (payload_size r4) + 3" using r4 p by simp
  define r5 where "r5 = r4\<lparr>data := d, data_size := data_size r4 + 1,
             parse_state := (if ok then LW_PARSESTATE_DONE else LW_PARSESTATE_START),
             command_id := (if ok then d ! 3 else command_id r4)\<rparr>"
  have l: "lw_feed_response r4 c2 =
             Some (if ok then LW_RESULT_SUCCESS else LW_RESULT_AGAIN, r5)"
    unfolding r5_def by (rule feed_PAYLOAD_last [OF r4(1) r4(2) k pp d_def nn okd])
  have u: "unat (data_size r4 + 1) = ?n + 5"
    using unat_succ_small [of "data_size r4"] r4 p2 by (simp add: LW_PACKET_RECV_SIZE_def)
  have hb: "feed_bytes r ([LW_PACKET_START_BYTE, lo, hi] @ (body @ [c1])) =
          Some (replicate 3 LW_RESULT_AGAIN @ replicate (?n + 1) LW_RESULT_AGAIN, r4)"
    by (rule feed_bytes_append_Some [OF h b])
  have "feed_bytes r (([LW_PACKET_START_BYTE, lo, hi] @ (body @ [c1])) @ [c2]) =
          Some ((replicate 3 LW_RESULT_AGAIN @ replicate (?n + 1) LW_RESULT_AGAIN) @
                [if ok then LW_RESULT_SUCCESS else LW_RESULT_AGAIN], r5)"
    by (rule feed_bytes_snoc [OF hb l])
  moreover have "([LW_PACKET_START_BYTE, lo, hi] @ (body @ [c1])) @ [c2] =
      [LW_PACKET_START_BYTE, lo, hi] @ body @ [c1, c2]" by simp
  moreover have "replicate 3 LW_RESULT_AGAIN @ replicate (?n + 1) LW_RESULT_AGAIN =
      replicate (?n + 4) LW_RESULT_AGAIN"
    by (simp add: replicate_add [symmetric] del: replicate_Suc)
  ultimately have "feed_bytes r ([LW_PACKET_START_BYTE, lo, hi] @ body @ [c1, c2]) =
          Some (replicate (?n + 4) LW_RESULT_AGAIN @
                [if ok then LW_RESULT_SUCCESS else LW_RESULT_AGAIN], r5)"
    by (simp only:)
  moreover have "parse_state r5 = (if ok then LW_PARSESTATE_DONE else LW_PARSESTATE_START)"
    "length (data r5) = LW_PACKET_RECV_SIZE" "unat (data_size r5) = ?n + 5"
    "payload_size r5 = declared_payload_size lo hi"
    "take (?n + 5) (data r5) = [LW_PACKET_START_BYTE, lo, hi] @ body @ [c1, c2]"
    "ok \<longrightarrow> command_id r5 = hd body"
    using lend u r4 t5 c3 by (simp_all add: r5_def)
  ultimately show ?thesis by blast
qed

section \<open>The bytes of a packet\<close>

lemma word16_split_bytes32:
  fixes w :: "16 word"
  shows "(ucast (ucast w :: 8 word) OR push_bit 8 (ucast (ucast (drop_bit 8 w) :: 8 word)) :: 32 word) = ucast w"
proof (rule bit_word_eqI)
  fix n assume "n < LENGTH(32)"
  show "bit (ucast (ucast w :: 8 word) OR push_bit 8 (ucast (ucast (drop_bit 8 w) :: 8 word)) :: 32 word) n = bit (ucast w :: 32 word) n"
  proof (cases "bit w n")
    case True
    then have "n < 16" using bit_imp_le_length [of w n] by simp
    then show ?thesis by (auto simp: bit_simps)
  next
    case False
    then show ?thesis by (auto simp: bit_simps)
  qed
qed

lemma small_bits:
  fixes pl :: "32 word"
  assumes "unat pl < 1024" "bit pl i"
  shows "i < 10"
proof -
  have "pl < 2 ^ 10" using assms(1) by (simp add: word_less_nat_alt)
  then have "pl AND mask 10 = pl" by (rule less_mask_eq)
  then have "take_bit 10 pl = pl" by (simp only: take_bit_eq_mask)
  with assms(2) have "bit (take_bit 10 pl) i" by simp
  then show ?thesis by (simp only: bit_take_bit_iff)
qed

lemma word16_split_bytes:
  fixes w :: "16 word"
  shows "(ucast (ucast w :: 8 word) OR push_bit 8 (ucast (ucast (drop_bit 8 w) :: 8 word)) :: 16 word) = w"
proof (rule bit_word_eqI)
  fix n assume "n < LENGTH(16)"
  then show "bit (ucast (ucast w :: 8 word) OR push_bit 8 (ucast (ucast (drop_bit 8 w) :: 8 word)) :: 16 word) n = bit w n"
    by (cases "n < 8") (auto simp: bit_simps)
qed

lemma declared_of_flags:
  fixes pl :: "32 word"
  assumes "unat pl < 1024"
    and "flags = (ucast (push_bit 6 pl OR ucast (write AND 1 :: 8 word)) :: 16 word)"
  shows "declared_payload_size (ucast flags) (ucast (drop_bit 8 flags)) = pl"
proof -
  have "declared_payload_size (ucast flags) (ucast (drop_bit 8 flags)) = drop_bit 6 (ucast flags)"
    by (simp add: declared_payload_size_def word16_split_bytes32)
  also have "\<dots> = pl"
    unfolding assms(2)
  proof (rule bit_word_eqI)
    fix n assume "n < LENGTH(32)"
    show "bit (drop_bit 6 (ucast (ucast (push_bit 6 pl OR ucast (write AND 1 :: 8 word)) :: 16 word)) :: 32 word) n = bit pl n"
    proof (cases "bit pl n")
      case True
      then have "n < 10" by (rule small_bits [OF assms(1)])
      with True show ?thesis by (simp add: bit_simps)
    next
      case False
      then show ?thesis by (auto simp: bit_simps)
    qed
  qed
  finally show ?thesis .
qed

lemma take4_updates:
  "4 \<le> length xs \<Longrightarrow> take 4 (xs[0 := a, Suc 0 := b, 2 := c, 3 := d]) = [a, b, c, d]"
  by (cases xs; cases "tl xs"; cases "tl (tl xs)"; cases "tl (tl (tl xs))")
     (auto simp: numeral_3_eq_3 numeral_2_eq_2 eval_nat_numeral)

lemma take2_updates:
  "2 \<le> length xs \<Longrightarrow> take 2 (xs[0 := a, Suc 0 := b]) = [a, b]"
  by (cases xs; cases "tl xs") (auto simp: numeral_2_eq_2)

lemma unat_of_nat32: "n < 2 ^ 32 \<Longrightarrow> unat (of_nat n :: 32 word) = n"
  by (simp add: unat_of_nat take_bit_nat_eq_self)

lemma lw_create_packet_bytes:
  fixes payload :: "8 word list"
  assumes fit: "6 + length payload \<le> length packet_buffer"
    and small: "length payload < 65530"
    and flags: "flags = (ucast (push_bit 6 (1 + of_nat (length payload) :: 32 word) OR
                           ucast (write AND 1)) :: 16 word)"
    and hdr: "hdr = [LW_PACKET_START_BYTE, ucast flags, ucast (drop_bit 8 flags), cmd] @ payload"
    and crc: "crc = fold (\<lambda>b crc. lw_create_crc_step crc b) hdr 0"
  shows "\<exists>buf. lw_create_packet packet_buffer cmd write payload (of_nat (length payload)) =
               Some (of_nat (6 + length payload), buf) \<and>
           length buf = length packet_buffer \<and>
           take (6 + length payload) buf = hdr @ [ucast crc, ucast (drop_bit 8 crc)]"
proof -
  let ?n = "length payload"
  let ?dsize = "of_nat ?n :: 32 word"
  have un: "unat ?dsize = ?n" using small by (intro unat_of_nat32) simp
  have u4: "unat (4 + ?dsize) = 4 + ?n"
    using unat_plus_small [of ?dsize 4] un small by (simp add: add.commute)
  have u5: "unat (5 + ?dsize) = 5 + ?n"
    using unat_plus_small [of ?dsize 5] un small by (simp add: add.commute)
  have c4: "unat (ucast (4 + ?dsize) :: 16 word) = 4 + ?n"
    using u4 small by (simp add: ucast16_small)
  define b4 where "b4 = packet_buffer[0 := LW_PACKET_START_BYTE, 1 := ucast flags,
                          2 := ucast (drop_bit 8 flags), 3 := cmd]"
  have lb4: "length b4 = length packet_buffer" by (simp add: b4_def)
  have t4: "take 4 b4 = [LW_PACKET_START_BYTE, ucast flags, ucast (drop_bit 8 flags), cmd]"
    using fit by (simp add: b4_def take4_updates)
  define rest where "rest = drop (4 + ?n) b4"
  have lrest: "2 \<le> length rest" using fit lb4 by (simp add: rest_def)
  define b5 where "b5 = hdr @ rest"
  have lhdr: "length hdr = 4 + ?n" by (simp add: hdr)
  have lb5: "length b5 = length packet_buffer"
    using fit lb4 lhdr by (simp add: b5_def rest_def)
  have s: "store packet_buffer 0 LW_PACKET_START_BYTE \<bind>
        (\<lambda>buf. store buf 1 (ucast flags) \<bind>
        (\<lambda>buf. store buf 2 (ucast (drop_bit 8 flags)) \<bind>
        (\<lambda>buf. store buf 3 cmd \<bind> f))) = f b4" for f :: "8 word list \<Rightarrow> 'a option"
  proof -
    have "0 < length packet_buffer" "1 < length packet_buffer" "2 < length packet_buffer"
      "3 < length packet_buffer" using fit by linarith+
    then show ?thesis by (simp add: store_def b4_def)
  qed
  have m: "memcpy b4 4 payload (unat ?dsize) = Some b5"
    using fit lb4 by (simp add: memcpy_def un b5_def hdr t4 rest_def)
  have tk: "take (4 + ?n) b5 = hdr" using lhdr by (simp add: b5_def)
  have cr: "lw_create_crc b5 (ucast (4 + ?dsize)) = Some crc"
    unfolding lw_create_crc_def c4 tk using lb5 fit by (simp add: crc)
  define b7 where "b7 = hdr @ rest[0 := ucast crc, 1 := ucast (drop_bit 8 crc)]"
  have s6: "store b5 (unat (4 + ?dsize)) (ucast crc) \<bind>
        (\<lambda>buf. store buf (unat (5 + ?dsize)) (ucast (drop_bit 8 crc)) \<bind> f) = f b7"
    for f :: "8 word list \<Rightarrow> 'a option"
    unfolding u4 u5 using lb5 fit lhdr lrest
    by (simp add: store_def b5_def b7_def list_update_append)
  have res: "lw_create_packet packet_buffer cmd write payload ?dsize = Some (6 + ?dsize, b7)"
    unfolding lw_create_packet_def Let_def flags [symmetric]
    by (simp only: s m cr s6 bind.bind_lunit)
  have "6 + ?dsize = of_nat (6 + ?n)" by simp
  moreover have "length b7 = length packet_buffer"
    using lb5 by (simp add: b7_def b5_def)
  moreover have "take (6 + ?n) b7 = hdr @ [ucast crc, ucast (drop_bit 8 crc)]"
    using lhdr lrest by (simp add: b7_def take2_updates)
  ultimately show ?thesis using res by simp
qed

section \<open>Round trip\<close>

lemma roundtrip_from_idle:
  fixes payload :: "8 word list"
  assumes len: "length (data r) = LW_PACKET_RECV_SIZE"
    and st: "parse_state r = LW_PARSESTATE_START \<or> parse_state r = LW_PARSESTATE_DONE"
    and fit: "6 + length payload \<le> length packet_buffer"
    and cap: "length payload + 1 \<le> LW_PACKET_RECV_SIZE - 5"
    and out: "length payload \<le> length out"
  shows "\<exists>buf r'.
           lw_create_packet packet_buffer cmd write payload (of_nat (length payload)) =
             Some (of_nat (6 + length payload), buf) \<and>
           feed_bytes r (take (6 + length payload) buf) =
             Some (replicate (5 + length payload) LW_RESULT_AGAIN @ [LW_RESULT_SUCCESS], r') \<and>
           parse_state r' = LW_PARSESTATE_DONE \<and>
           length (data r') = LW_PACKET_RECV_SIZE \<and>
           command_id r' = cmd \<and>
           payload_size r' = 1 + of_nat (length payload) \<and>
           take (6 + length payload) (data r') = take (6 + length payload) buf \<and>
           lw_parse_packet_data (data r') out (of_nat (length payload)) 0 =
             Some (payload @ drop (length payload) out)"
proof -
  let ?n = "length payload"
  have n59: "?n \<le> 58" using cap by (simp add: LW_PACKET_RECV_SIZE_def)
  define flags where "flags = (ucast (push_bit 6 (1 + of_nat ?n :: 32 word) OR
                           ucast (write AND 1)) :: 16 word)"
  define lo :: "8 word" where "lo = ucast flags"
  define hi :: "8 word" where "hi = ucast (drop_bit 8 flags)"
  define hdr where "hdr = [LW_PACKET_START_BYTE, lo, hi, cmd] @ payload"
  define crc where "crc = fold (\<lambda>b crc. lw_create_crc_step crc b) hdr 0"
  define c1 :: "8 word" where "c1 = ucast crc"
  define c2 :: "8 word" where "c2 = ucast (drop_bit 8 crc)"
  have small: "?n < 65530" using n59 by simp
  from lw_create_packet_bytes [OF fit small flags_def, of hdr cmd crc]
  obtain buf where
    cp: "lw_create_packet packet_buffer cmd write payload (of_nat ?n) = Some (of_nat (6 + ?n), buf)"
    and tb: "take (6 + ?n) buf = hdr @ [c1, c2]"
    by (auto simp: hdr_def lo_def hi_def crc_def c1_def c2_def)
  have un: "unat (1 + of_nat ?n :: 32 word) = ?n + 1"
    using unat_of_nat32 [of "?n + 1"] n59 by (simp add: add.commute)
  have decl: "declared_payload_size lo hi = 1 + of_nat ?n"
    unfolding lo_def hi_def
    by (rule declared_of_flags [OF _ flags_def]) (use un n59 in simp)
  have frame: "take (6 + ?n) buf = [LW_PACKET_START_BYTE, lo, hi] @ (cmd # payload) @ [c1, c2]"
    by (simp add: tb hdr_def)
  have ok: "True \<longleftrightarrow> (ucast c1 OR push_bit 8 (ucast c2) :: 16 word) =
               fold (\<lambda>b crc. lw_create_crc_step crc b)
                 ([LW_PACKET_START_BYTE, lo, hi] @ (cmd # payload)) 0"
    using word16_split_bytes [of crc] by (simp add: c1_def c2_def crc_def hdr_def)
  have p: "unat (declared_payload_size lo hi) = length (cmd # payload)"
    using decl un by simp
  have p1: "1 \<le> length (cmd # payload)" by simp
  have p2: "length (cmd # payload) + 5 \<le> LW_PACKET_RECV_SIZE"
    using n59 by (simp add: LW_PACKET_RECV_SIZE_def)
  from feed_frame [OF len st p p1 p2 ok] obtain r' where
    fb: "feed_bytes r ([LW_PACKET_START_BYTE, lo, hi] @ (cmd # payload) @ [c1, c2]) =
           Some (replicate (length (cmd # payload) + 4) LW_RESULT_AGAIN @ [LW_RESULT_SUCCESS], r')"
    and r': "parse_state r' = LW_PARSESTATE_DONE" "length (data r') = LW_PACKET_RECV_SIZE"
      "take (length (cmd # payload) + 5) (data r') =
         [LW_PACKET_START_BYTE, lo, hi] @ (cmd # payload) @ [c1, c2]"
      "command_id r' = hd (cmd # payload)"
      "payload_size r' = declared_payload_size lo hi"
    by auto
  have t6: "take (6 + ?n) (data r') = [LW_PACKET_START_BYTE, lo, hi, cmd] @ payload @ [c1, c2]"
    using r'(3) by (simp add: add.commute)
  have "take ?n (drop 4 (data r')) = take ?n (drop 4 (take (6 + ?n) (data r')))"
    by (simp add: drop_take)
  also have "\<dots> = payload" unfolding t6 by simp
  finally have ex: "take ?n (drop 4 (data r')) = payload" .
  have "length (drop 4 (data r')) = 60" using r'(2) by (simp add: LW_PACKET_RECV_SIZE_def)
  then have pd: "lw_parse_packet_data (data r') out (of_nat ?n) 0 = Some (payload @ drop ?n out)"
    using out n59 ex by (simp add: lw_parse_packet_data_def memcpy_def unat_of_nat32)
  have "feed_bytes r (take (6 + ?n) buf) =
          Some (replicate (5 + ?n) LW_RESULT_AGAIN @ [LW_RESULT_SUCCESS], r')"
    using fb unfolding frame by (simp add: add.commute)
  moreover have "take (6 + ?n) (data r') = take (6 + ?n) buf"
    using t6 frame by simp
  ultimately show ?thesis using cp r' pd decl by auto
qed

section \<open>Responses with the same progress decode alike\<close>

lemma take_Suc_update_cong:
  assumes "take k xs = take k ys" "k < length xs" "k < length ys"
  shows "take (Suc k) (xs[k := b]) = take (Suc k) (ys[k := b])"
  using assms by (simp add: take_Suc_conv_app_nth)

lemma take_nth_cong:
  assumes "take k xs = take k ys" "i < k"
  shows "xs ! i = ys ! i"
  using assms by (metis nth_take)

lemma take_take_cong:
  assumes "take k xs = take k ys" "n \<le> k"
  shows "take n xs = take n ys"
proof -
  have "take n xs = take n (take k xs)" using assms(2) by (simp add: min_def)
  also have "\<dots> = take n (take k ys)" by (simp only: assms(1))
  also have "\<dots> = take n ys" using assms(2) by (simp add: min_def)
  finally show ?thesis .
qed

lemma same_progress_step_aux:
  assumes sp: "same_progress r1 r2"
    and nd: "parse_state r1 \<noteq> LW_PARSESTATE_DONE" "parse_state r2 \<noteq> LW_PARSESTATE_DONE"
  shows "\<exists>res r1' r2'. lw_feed_response r1 b = Some (res, r1') \<and>
           lw_feed_response r2 b = Some (res, r2') \<and> same_progress r1' r2'"
proof -
  from sp have i1: "response_inv r1" and i2: "response_inv r2"
    by (simp_all add: same_progress_def)
  then have l1: "length (data r1) = 64" and l2: "length (data r2) = 64"
    by (simp_all add: response_inv_def LW_PACKET_RECV_SIZE_def)
  show ?thesis
  proof (cases "parse_state r1")
    case LW_PARSESTATE_START
    then have s2: "parse_state r2 = LW_PARSESTATE_START"
      using sp nd by (simp add: same_progress_def)
    show ?thesis
    proof (cases "b = LW_PACKET_START_BYTE")
      case True
      then show ?thesis
        using LW_PARSESTATE_START s2 l1 l2
        by (simp add: feed_START_marker same_progress_def response_inv_def
            LW_PACKET_RECV_SIZE_def take_Suc_conv_app_nth)
    next
      case False
      then show ?thesis
        using LW_PARSESTATE_START s2 sp by (simp add: feed_START_other)
    qed
  next
    case LW_PARSESTATE_FLAGS1
    then have s2: "parse_state r2 = LW_PARSESTATE_FLAGS1"
      and t: "take (Suc 0) (data r1) = take (Suc 0) (data r2)"
      using sp by (simp_all add: same_progress_def)
    have "take (Suc (Suc 0)) ((data r1)[Suc 0 := b]) = take (Suc (Suc 0)) ((data r2)[Suc 0 := b])"
      using t l1 l2 by (intro take_Suc_update_cong) simp_all
    then show ?thesis
      using LW_PARSESTATE_FLAGS1 s2 l1 l2
      by (simp add: feed_FLAGS1 same_progress_def response_inv_def LW_PACKET_RECV_SIZE_def
          numeral_2_eq_2)
  next
    case LW_PARSESTATE_FLAGS2
    then have s2: "parse_state r2 = LW_PARSESTATE_FLAGS2"
      and t: "take 2 (data r1) = take 2 (data r2)"
      using sp by (simp_all add: same_progress_def)
    have e1: "data r1 ! 1 = data r2 ! 1" using t by (rule take_nth_cong) simp
    have "take (Suc 2) ((data r1)[2 := b]) = take (Suc 2) ((data r2)[2 := b])"
      using t l1 l2 by (intro take_Suc_update_cong) simp_all
    then have t3: "take 3 ((data r1)[2 := b]) = take 3 ((data r2)[2 := b])"
      by (simp add: numeral_3_eq_3 numeral_2_eq_2)
    show ?thesis
      using LW_PARSESTATE_FLAGS2 s2 l1 l2 e1 t3
      by (simp add: feed_FLAGS2 same_progress_def response_inv_def LW_PACKET_RECV_SIZE_def
          word_less_nat_alt word_le_nat_alt not_less)
  next
    case LW_PARSESTATE_PAYLOAD
    note ps1 = this
    then have ps2: "parse_state r2 = LW_PARSESTATE_PAYLOAD"
      and ds: "data_size r1 = data_size r2" and pz: "payload_size r1 = payload_size r2"
      and t: "take (unat (data_size r1)) (data r1) = take (unat (data_size r1)) (data r2)"
      using sp by (auto simp: same_progress_def)
    from i1 ps1 have le: "unat (payload_size r1) + 5 \<le> LW_PACKET_RECV_SIZE"
      and lt: "unat (data_size r1) < unat (payload_size r1) + 5"
      by (simp_all add: response_inv_def)
    have k1: "unat (data_size r1) < length (data r1)" "unat (data_size r1) < length (data r2)"
      using le lt l1 l2 by (simp_all add: LW_PACKET_RECV_SIZE_def)
    let ?k = "unat (data_size r1)"
    let ?d1 = "(data r1)[?k := b]" and ?d2 = "(data r2)[?k := b]"
    have tk: "take (Suc ?k) ?d1 = take (Suc ?k) ?d2"
      using t k1 by (rule take_Suc_update_cong)
    from payload_last_or_more [OF i1 ps1] show ?thesis
    proof (elim disjE conjE)
      assume ne: "data_size r1 + 1 \<noteq> payload_size r1 + 5"
        and u: "unat (data_size r1 + 1) = unat (data_size r1) + 1"
        and l: "unat (data_size r1) + 1 < unat (payload_size r1) + 5"
      have f1: "lw_feed_response r1 b = Some (LW_RESULT_AGAIN,
              r1\<lparr>data := ?d1, data_size := data_size r1 + 1\<rparr>)"
        by (rule feed_PAYLOAD_more [OF ps1 k1(1) ne])
      have f2: "lw_feed_response r2 b = Some (LW_RESULT_AGAIN,
              r2\<lparr>data := ?d2, data_size := data_size r1 + 1\<rparr>)"
        using feed_PAYLOAD_more [OF ps2, of b] k1(2) ne ds pz by simp
      show ?thesis
        unfolding f1 f2 using ps1 ps2 pz u l le l1 l2 tk
        by (simp add: same_progress_def response_inv_def LW_PACKET_RECV_SIZE_def)
    next
      assume k: "unat (data_size r1) = unat (payload_size r1) + 4"
      let ?n = "unat (payload_size r1) + 3"
      define ok1 where "ok1 \<longleftrightarrow> (ucast (?d1 ! ?n) OR push_bit 8 (ucast (?d1 ! (?n + 1))) :: 16 word)
                     = fold (\<lambda>b crc. lw_create_crc_step crc b) (take ?n ?d1) 0"
      define ok2 where "ok2 \<longleftrightarrow> (ucast (?d2 ! ?n) OR push_bit 8 (ucast (?d2 ! (?n + 1))) :: 16 word)
                     = fold (\<lambda>b crc. lw_create_crc_step crc b) (take ?n ?d2) 0"
      have a: "?d1 ! ?n = ?d2 ! ?n" using tk by (rule take_nth_cong) (simp add: k)
      have b: "?d1 ! (?n + 1) = ?d2 ! (?n + 1)" using tk by (rule take_nth_cong) (simp add: k)
      have c: "take ?n ?d1 = take ?n ?d2" using tk by (rule take_take_cong) (simp add: k)
      have ok: "ok1 = ok2" unfolding ok1_def ok2_def by (simp only: a b c)
      have f1: "lw_feed_response r1 b =
         Some (if ok1 then LW_RESULT_SUCCESS else LW_RESULT_AGAIN,
           r1\<lparr>data := ?d1, data_size := data_size r1 + 1,
             parse_state := (if ok1 then LW_PARSESTATE_DONE else LW_PARSESTATE_START),
             command_id := (if ok1 then ?d1 ! 3 else command_id r1)\<rparr>)"
        using l1 by (intro feed_PAYLOAD_last [OF ps1 _ k le refl refl ok1_def])
                    (simp add: LW_PACKET_RECV_SIZE_def)
      have f2: "lw_feed_response r2 b =
         Some (if ok2 then LW_RESULT_SUCCESS else LW_RESULT_AGAIN,
           r2\<lparr>data := (data r2)[unat (data_size r2) := b], data_size := data_size r2 + 1,
             parse_state := (if ok2 then LW_PARSESTATE_DONE else LW_PARSESTATE_START),
             command_id := (if ok2 then (data r2)[unat (data_size r2) := b] ! 3 else command_id r2)\<rparr>)"
        using l2 k le ok2_def unfolding ds pz
        by (intro feed_PAYLOAD_last [OF ps2 _ _ _ refl refl]) (simp_all add: LW_PACKET_RECV_SIZE_def)
      show ?thesis
        unfolding f1 f2 using ok l1 l2
        by (simp add: same_progress_def response_inv_def LW_PACKET_RECV_SIZE_def)
    qed
  next
    case LW_PARSESTATE_DONE
    then show ?thesis using nd by simp
  qed
qed

lemma same_progress_step:
  assumes sp: "same_progress r1 r2"
  shows "\<exists>res r1' r2'. lw_feed_response r1 b = Some (res, r1') \<and>
           lw_feed_response r2 b = Some (res, r2') \<and> same_progress r1' r2'"
proof -
  define n1 where "n1 = (if parse_state r1 = LW_PARSESTATE_DONE then lw_init_response r1 else r1)"
  define n2 where "n2 = (if parse_state r2 = LW_PARSESTATE_DONE then lw_init_response r2 else r2)"
  have e: "lw_feed_response r1 b = lw_feed_response n1 b"
    "lw_feed_response r2 b = lw_feed_response n2 b"
    by (simp_all add: n1_def n2_def feed_DONE)
  have nd: "parse_state n1 \<noteq> LW_PARSESTATE_DONE" "parse_state n2 \<noteq> LW_PARSESTATE_DONE"
    by (simp_all add: n1_def n2_def lw_init_response_def)
  have "same_progress n1 n2"
    using sp
    by (cases "parse_state r1"; cases "parse_state r2")
       (auto simp: n1_def n2_def same_progress_def response_inv_def lw_init_response_def)
  from same_progress_step_aux [OF this nd, of b] show ?thesis unfolding e .
qed

lemma same_progress_bytes:
  "same_progress r1 r2 \<Longrightarrow>
   \<exists>rs r1' r2'. feed_bytes r1 bs = Some (rs, r1') \<and> feed_bytes r2 bs = Some (rs, r2') \<and>
     same_progress r1' r2'"
proof (induction bs arbitrary: r1 r2)
  case Nil
  then show ?case by simp
next
  case (Cons b bs)
  from same_progress_step [OF Cons.prems, of b] obtain res r1' r2' where
    f: "lw_feed_response r1 b = Some (res, r1')" "lw_feed_response r2 b = Some (res, r2')"
    and s: "same_progress r1' r2'" by blast
  from Cons.IH [OF s] obtain rs r1'' r2'' where
    "feed_bytes r1' bs = Some (rs, r1'')" "feed_bytes r2' bs = Some (rs, r2'')"
    "same_progress r1'' r2''" by blast
  with f show ?case by simp
qed

section \<open>The checksum\<close>

lemma crc_step_ccitt: "lw_create_crc_step crc b = ccitt_checksum_step crc b"
  by (simp add: lw_create_crc_step_def ccitt_checksum_step_def Let_def)

lemma crc_fold_ccitt:
  "fold (\<lambda>b crc. lw_create_crc_step crc b) bs crc = ccitt_checksum_from crc bs"
  by (induction bs arbitrary: crc) (simp_all add: crc_step_ccitt)

text \<open>
  Claim C1, as stated: \<^verbatim>\<open>lw_create_crc\<close> computes the algorithm of section 4.1 of the
  specification.  It fails on the one-byte input \<open>[1]\<close>: the source shifts \<open>code\<close> in
  place, so its last step adds \<open>code << 12\<close> and the result is \<open>0x1021\<close>, while the
  steps of section 4.1 give \<open>0x00A1\<close>.
\<close>

theorem lw_create_crc_spec_counterexample:
  "lw_create_crc [1] 1 = Some 0x1021 \<and> spec_checksum [1] = 0xA1 \<and>
   lw_create_crc [1] 1 \<noteq> Some (spec_checksum [1])"
  by (simp add: lw_create_crc_def lw_create_crc_step_def spec_checksum_def
      spec_checksum_step_def)

text \<open>
  Claim C1, amended: for every buffer and every size within it, \<^verbatim>\<open>lw_create_crc\<close>
  returns the 16-bit accumulator that starts at 0 and takes, for each of the first
  \<open>size\<close> bytes \<open>b\<close> in order, the steps \<open>code = (crc >> 8) XOR b\<close>,
  \<open>code = code XOR (code >> 4)\<close>, \<open>crc = (crc << 8) XOR code\<close>,
  \<open>crc = crc XOR (code << 5)\<close>, \<open>crc = crc XOR (code << 12)\<close>, all truncated to 16 bits.
\<close>

theorem lw_create_crc_ccitt:
  "unat sz \<le> length buf \<Longrightarrow>
   lw_create_crc buf sz = Some (ccitt_checksum (take (unat sz) buf))"
  by (simp add: lw_create_crc_def ccitt_checksum_def crc_fold_ccitt)

theorem lw_create_crc_ccitt_witness:
  "unat (4 :: 16 word) \<le> length [0xAA, 0x40, 0, 5 :: 8 word] \<and>
   lw_create_crc [0xAA, 0x40, 0, 5] 4 = Some 0xCFD5"
  using lw_create_crc_ccitt [of 4 "[0xAA, 0x40, 0, 5]"]
  by (simp add: ccitt_checksum_def ccitt_checksum_step_def)

section \<open>The decoder stays inside its buffer\<close>

text \<open>
  Claim C10: from an initialised response with a buffer of \<^verbatim>\<open>LW_PACKET_RECV_SIZE\<close>
  bytes, every sequence of bytes is decoded without an access outside the buffer (every
  call returns a result), and whenever the decoder is left in the payload state the
  count of stored bytes, which is the index of its next write, is below
  \<open>payload_size + 5\<close>, which is at most \<^verbatim>\<open>LW_PACKET_RECV_SIZE\<close>.
\<close>

theorem feed_response_within_buffer:
  "length (data r) = LW_PACKET_RECV_SIZE \<Longrightarrow>
   \<exists>rs r'. feed_bytes (lw_init_response r) bs = Some (rs, r') \<and>
     length (data r') = LW_PACKET_RECV_SIZE \<and>
     (parse_state r' = LW_PARSESTATE_PAYLOAD \<longrightarrow>
        unat (data_size r') < unat (payload_size r') + 5 \<and>
        unat (payload_size r') + 5 \<le> LW_PACKET_RECV_SIZE \<and>
        unat (data_size r') < LW_PACKET_RECV_SIZE)"
proof -
  assume "length (data r) = LW_PACKET_RECV_SIZE"
  then have "response_inv (lw_init_response r)" by (rule response_inv_init)
  from feed_bytes_inv [OF this, of bs] obtain rs r' where
    "feed_bytes (lw_init_response r) bs = Some (rs, r')" "response_inv r'" by blast
  then show ?thesis by (auto simp: response_inv_def)
qed

theorem feed_response_within_buffer_witness:
  "length (data \<lparr>data = replicate LW_PACKET_RECV_SIZE 0, data_size = 7, payload_size = 9,
       parse_state = LW_PARSESTATE_DONE, command_id = 3\<rparr>) = LW_PACKET_RECV_SIZE \<and>
   (\<exists>rs r'. feed_bytes (lw_init_response \<lparr>data = replicate LW_PACKET_RECV_SIZE 0, data_size = 7,
       payload_size = 9, parse_state = LW_PARSESTATE_DONE, command_id = 3\<rparr>) [0xAA, 0x40, 0, 5]
        = Some (rs, r') \<and> 
     parse_state r' = LW_PARSESTATE_PAYLOAD \<and>
     unat (data_size r') < unat (payload_size r') + 5 \<and>
     unat (payload_size r') + 5 \<le> LW_PACKET_RECV_SIZE \<and>
     unat (data_size r') < LW_PACKET_RECV_SIZE)"
proof -
  let ?r = "\<lparr>data = replicate LW_PACKET_RECV_SIZE 0, data_size = 7, payload_size = 9,
       parse_state = LW_PARSESTATE_DONE, command_id = 3 :: 8 word\<rparr>"
  have len: "length (data ?r) = LW_PACKET_RECV_SIZE" by simp
  from feed_response_within_buffer [OF len, of "[0xAA, 0x40, 0, 5]"]
  obtain rs r' where f: "feed_bytes (lw_init_response ?r) [0xAA, 0x40, 0, 5] = Some (rs, r')"
    and b: "parse_state r' = LW_PARSESTATE_PAYLOAD \<longrightarrow>
        unat (data_size r') < unat (payload_size r') + 5 \<and>
        unat (payload_size r') + 5 \<le> LW_PACKET_RECV_SIZE \<and>
        unat (data_size r') < LW_PACKET_RECV_SIZE" by blast
  have "map_option (parse_state \<circ> snd) (feed_bytes (lw_init_response ?r) [0xAA, 0x40, 0, 5])
          = Some LW_PARSESTATE_PAYLOAD"
    by code_simp
  with f have "parse_state r' = LW_PARSESTATE_PAYLOAD" by simp
  with f b len show ?thesis by blast
qed

section \<open>The declared payload length\<close>

text \<open>
  Claim C7: in the state \<^verbatim>\<open>LW_PARSESTATE_FLAGS2\<close> the fed byte is the high flags byte;
  the call stores it, returns \<^verbatim>\<open>LW_RESULT_AGAIN\<close> and sets \<open>payload_size\<close> to
  \<open>(low | (high << 8)) >> 6\<close>.  If that length lies in \<open>[1, LW_PACKET_RECV_SIZE - 5]\<close>
  the decoder is in the payload state with three bytes accumulated.  Otherwise it is back
  in the start state, and every later byte sequence gets the result codes that a freshly
  initialised response gives, the two decoders ending with the same packet progress.
\<close>

theorem feed_flags2_payload_length:
  "parse_state r = LW_PARSESTATE_FLAGS2 \<and> length (data r) = LW_PACKET_RECV_SIZE \<longrightarrow>
   (\<exists>r'. lw_feed_response r b = Some (LW_RESULT_AGAIN, r') \<and>
      payload_size r' = drop_bit 6 (ucast (data r ! 1) OR push_bit 8 (ucast b)) \<and>
      data r' = (data r)[2 := b] \<and>
      (if 1 \<le> unat (payload_size r') \<and> unat (payload_size r') \<le> LW_PACKET_RECV_SIZE - 5
       then parse_state r' = LW_PARSESTATE_PAYLOAD \<and> data_size r' = 3
       else parse_state r' = LW_PARSESTATE_START \<and>
            (\<forall>bs. \<exists>rs r1 r2. feed_bytes r' bs = Some (rs, r1) \<and>
                   feed_bytes (lw_init_response r) bs = Some (rs, r2) \<and>
                   same_progress r1 r2)))"
proof (intro impI, elim conjE)
  assume ps: "parse_state r = LW_PARSESTATE_FLAGS2" and len: "length (data r) = LW_PACKET_RECV_SIZE"
  let ?p = "declared_payload_size (data r ! 1) b"
  define r' where "r' = r\<lparr>parse_state :=
            (if ?p > of_nat (LW_PACKET_RECV_SIZE - 5) \<or> ?p < 1
             then LW_PARSESTATE_START else LW_PARSESTATE_PAYLOAD),
         data := (data r)[2 := b], data_size := 3, payload_size := ?p\<rparr>"
  have f: "lw_feed_response r b = Some (LW_RESULT_AGAIN, r')"
    unfolding r'_def using len by (intro feed_FLAGS2 [OF ps]) (simp add: LW_PACKET_RECV_SIZE_def)
  have c: "(?p > of_nat (LW_PACKET_RECV_SIZE - 5) \<or> ?p < 1) \<longleftrightarrow>
           \<not> (1 \<le> unat ?p \<and> unat ?p \<le> LW_PACKET_RECV_SIZE - 5)"
    by (auto simp: word_less_nat_alt LW_PACKET_RECV_SIZE_def)
  show "\<exists>r'. lw_feed_response r b = Some (LW_RESULT_AGAIN, r') \<and>
      payload_size r' = drop_bit 6 (ucast (data r ! 1) OR push_bit 8 (ucast b)) \<and>
      data r' = (data r)[2 := b] \<and>
      (if 1 \<le> unat (payload_size r') \<and> unat (payload_size r') \<le> LW_PACKET_RECV_SIZE - 5
       then parse_state r' = LW_PARSESTATE_PAYLOAD \<and> data_size r' = 3
       else parse_state r' = LW_PARSESTATE_START \<and>
            (\<forall>bs. \<exists>rs r1 r2. feed_bytes r' bs = Some (rs, r1) \<and>
                   feed_bytes (lw_init_response r) bs = Some (rs, r2) \<and>
                   same_progress r1 r2))"
  proof (cases "1 \<le> unat ?p \<and> unat ?p \<le> LW_PACKET_RECV_SIZE - 5")
    case True
    then show ?thesis using f c
      by (intro exI [of _ r']) (simp add: r'_def declared_payload_size_def)
  next
    case False
    then have st: "parse_state r' = LW_PARSESTATE_START" using c by (simp add: r'_def)
    have "same_progress r' (lw_init_response r)"
      using st len by (simp add: same_progress_def response_inv_def r'_def lw_init_response_def)
    then have "\<forall>bs. \<exists>rs r1 r2. feed_bytes r' bs = Some (rs, r1) \<and>
                   feed_bytes (lw_init_response r) bs = Some (rs, r2) \<and> same_progress r1 r2"
      using same_progress_bytes by blast
    then show ?thesis using f False st
      by (intro exI [of _ r']) (simp add: r'_def declared_payload_size_def)
  qed
qed

theorem feed_flags2_payload_length_witness:
  "parse_state \<lparr>data = replicate LW_PACKET_RECV_SIZE 0x40, data_size = 0, payload_size = 0,
       parse_state = LW_PARSESTATE_FLAGS2, command_id = 0\<rparr> = LW_PARSESTATE_FLAGS2 \<and>
   length (data \<lparr>data = replicate LW_PACKET_RECV_SIZE 0x40, data_size = 0, payload_size = 0,
       parse_state = LW_PARSESTATE_FLAGS2, command_id = 0\<rparr>) = LW_PACKET_RECV_SIZE \<and>
   (\<exists>r'. lw_feed_response \<lparr>data = replicate LW_PACKET_RECV_SIZE 0x40, data_size = 0,
       payload_size = 0, parse_state = LW_PARSESTATE_FLAGS2, command_id = 0\<rparr> 0xFF =
         Some (LW_RESULT_AGAIN, r') \<and>
       payload_size r' = 1021 \<and> parse_state r' = LW_PARSESTATE_START)"
proof -
  let ?r = "\<lparr>data = replicate LW_PACKET_RECV_SIZE (0x40 :: 8 word), data_size = 0,
       payload_size = 0, parse_state = LW_PARSESTATE_FLAGS2, command_id = 0 :: 8 word\<rparr>"
  have h: "parse_state ?r = LW_PARSESTATE_FLAGS2 \<and> length (data ?r) = LW_PACKET_RECV_SIZE"
    by simp
  have v: "drop_bit 6 (ucast (data ?r ! 1) OR push_bit 8 (ucast (0xFF :: 8 word))) = (1021 :: 32 word)"
    by (simp add: LW_PACKET_RECV_SIZE_def)
  from feed_flags2_payload_length [of ?r "0xFF"] h obtain r' where
    f: "lw_feed_response ?r 0xFF = Some (LW_RESULT_AGAIN, r')"
    and p: "payload_size r' = drop_bit 6 (ucast (data ?r ! 1) OR push_bit 8 (ucast (0xFF :: 8 word)))"
    and c: "if 1 \<le> unat (payload_size r') \<and> unat (payload_size r') \<le> LW_PACKET_RECV_SIZE - 5
       then parse_state r' = LW_PARSESTATE_PAYLOAD \<and> data_size r' = 3
       else parse_state r' = LW_PARSESTATE_START \<and>
            (\<forall>bs. \<exists>rs r1 r2. feed_bytes r' bs = Some (rs, r1) \<and>
                   feed_bytes (lw_init_response ?r) bs = Some (rs, r2) \<and>
                   same_progress r1 r2)"
    by blast
  have p': "payload_size r' = 1021" using p v by simp
  then have "parse_state r' = LW_PARSESTATE_START"
    using c by (simp add: LW_PACKET_RECV_SIZE_def)
  with f p' h show ?thesis by blast
qed

section \<open>Building and decoding a packet\<close>

text \<open>
  Claim C2, as stated: the read request for command 5 ends with the checksum of section
  4.1 of the specification.  The packet built in a zeroed request buffer is
  \<open>AA 40 00 05 D5 CF\<close>, while the steps of section 4.1 give the checksum bytes
  \<open>4C D7\<close>.
\<close>

theorem read_request_5_spec_crc_counterexample:
  "map_option (\<lambda>(n, buf). take (unat n) buf)
     (lw_create_packet (replicate LW_PACKET_SEND_SIZE 0) 5 0 [] 0) =
     Some [0xAA, 0x40, 0x00, 0x05, 0xD5, 0xCF] \<and>
   [ucast (spec_checksum [0xAA, 0x40, 0x00, 0x05]),
    ucast (drop_bit 8 (spec_checksum [0xAA, 0x40, 0x00, 0x05]))] = [0x4C, 0xD7 :: 8 word] \<and>
   map_option (\<lambda>(n, buf). take (unat n) buf)
     (lw_create_packet (replicate LW_PACKET_SEND_SIZE 0) 5 0 [] 0) \<noteq>
     Some [0xAA, 0x40, 0x00, 0x05, ucast (spec_checksum [0xAA, 0x40, 0x00, 0x05]),
           ucast (drop_bit 8 (spec_checksum [0xAA, 0x40, 0x00, 0x05]))]"
  by code_simp

text \<open>
  Claim C2, amended: for command id 5, write flag 0 and an empty payload,
  \<^verbatim>\<open>lw_create_packet\<close> writes exactly the six bytes \<open>AA 40 00 05 D5 CF\<close>, whose last
  two are the checksum \<open>0xCFD5\<close> that \<^verbatim>\<open>lw_create_crc\<close> returns for the first four,
  low byte first; fed one at a time to a freshly initialised response they give
  \<^verbatim>\<open>LW_RESULT_AGAIN\<close> five times and \<^verbatim>\<open>LW_RESULT_SUCCESS\<close> on the sixth byte, with
  command id 5 and the payload length 1 of a packet without data.
\<close>

theorem read_request_5_roundtrip:
  "6 \<le> length packet_buffer \<and> length (data r) = LW_PACKET_RECV_SIZE \<longrightarrow>
   (\<exists>buf r'.
      lw_create_packet packet_buffer 5 0 [] 0 = Some (6, buf) \<and>
      take 6 buf = [0xAA, 0x40, 0x00, 0x05, 0xD5, 0xCF] \<and>
      lw_create_crc [0xAA, 0x40, 0x00, 0x05] 4 = Some 0xCFD5 \<and>
      feed_bytes (lw_init_response r) (take 6 buf) =
        Some ([LW_RESULT_AGAIN, LW_RESULT_AGAIN, LW_RESULT_AGAIN, LW_RESULT_AGAIN,
               LW_RESULT_AGAIN, LW_RESULT_SUCCESS], r') \<and>
      parse_state r' = LW_PARSESTATE_DONE \<and> command_id r' = 5 \<and> payload_size r' = 1)"
proof (intro impI, elim conjE)
  assume fit: "6 \<le> length packet_buffer" and len: "length (data r) = LW_PACKET_RECV_SIZE"
  have l: "length (data (lw_init_response r)) = LW_PACKET_RECV_SIZE"
    using len by (simp add: lw_init_response_def)
  have s: "parse_state (lw_init_response r) = LW_PARSESTATE_START \<or>
     parse_state (lw_init_response r) = LW_PARSESTATE_DONE"
    by (simp add: lw_init_response_def)
  have fit': "6 + length ([] :: 8 word list) \<le> length packet_buffer" using fit by simp
  have cap: "length ([] :: 8 word list) + 1 \<le> LW_PACKET_RECV_SIZE - 5"
    by (simp add: LW_PACKET_RECV_SIZE_def)
  have out: "length ([] :: 8 word list) \<le> length ([] :: 8 word list)" by simp
  from roundtrip_from_idle [OF l s fit' cap out, of 5 0] obtain buf r' where
    cp: "lw_create_packet packet_buffer 5 0 [] 0 = Some (6, buf)"
    and fb: "feed_bytes (lw_init_response r) (take 6 buf) =
        Some (replicate 5 LW_RESULT_AGAIN @ [LW_RESULT_SUCCESS], r')"
    and r': "parse_state r' = LW_PARSESTATE_DONE" "command_id r' = 5" "payload_size r' = 1"
    by auto
  have small: "length ([] :: 8 word list) < 65530" by simp
  from lw_create_packet_bytes [OF fit' small refl refl refl, of 5 0] cp
  have tk: "take 6 buf = [0xAA, 0x40, 0x00, 0x05, 0xD5, 0xCF]"
    by (simp add: LW_PACKET_START_BYTE_def lw_create_crc_step_def)
  have crc: "lw_create_crc [0xAA, 0x40, 0x00, 0x05] 4 = Some 0xCFD5"
    by (simp add: lw_create_crc_def lw_create_crc_step_def)
  have "replicate 5 LW_RESULT_AGAIN @ [LW_RESULT_SUCCESS] =
     [LW_RESULT_AGAIN, LW_RESULT_AGAIN, LW_RESULT_AGAIN, LW_RESULT_AGAIN,
               LW_RESULT_AGAIN, LW_RESULT_SUCCESS]"
    by (simp add: eval_nat_numeral)
  with fb have fb': "feed_bytes (lw_init_response r) (take 6 buf) =
        Some ([LW_RESULT_AGAIN, LW_RESULT_AGAIN, LW_RESULT_AGAIN, LW_RESULT_AGAIN,
               LW_RESULT_AGAIN, LW_RESULT_SUCCESS], r')"
    by (simp only:)
  from cp tk crc fb' r' show "\<exists>buf r'.
      lw_create_packet packet_buffer 5 0 [] 0 = Some (6, buf) \<and>
      take 6 buf = [0xAA, 0x40, 0x00, 0x05, 0xD5, 0xCF] \<and>
      lw_create_crc [0xAA, 0x40, 0x00, 0x05] 4 = Some 0xCFD5 \<and>
      feed_bytes (lw_init_response r) (take 6 buf) =
        Some ([LW_RESULT_AGAIN, LW_RESULT_AGAIN, LW_RESULT_AGAIN, LW_RESULT_AGAIN,
               LW_RESULT_AGAIN, LW_RESULT_SUCCESS], r') \<and>
      parse_state r' = LW_PARSESTATE_DONE \<and> command_id r' = 5 \<and> payload_size r' = 1"
    by blast
qed

theorem read_request_5_roundtrip_witness:
  "6 \<le> length (replicate LW_PACKET_SEND_SIZE (0 :: 8 word)) \<and>
   length (data \<lparr>data = replicate LW_PACKET_RECV_SIZE 0, data_size = 0, payload_size = 0,
       parse_state = LW_PARSESTATE_START, command_id = 0\<rparr>) = LW_PACKET_RECV_SIZE \<and>
   (\<exists>buf r'.
      lw_create_packet (replicate LW_PACKET_SEND_SIZE 0) 5 0 [] 0 = Some (6, buf) \<and>
      take 6 buf = [0xAA, 0x40, 0x00, 0x05, 0xD5, 0xCF] \<and>
      lw_create_crc [0xAA, 0x40, 0x00, 0x05] 4 = Some 0xCFD5 \<and>
      feed_bytes (lw_init_response \<lparr>data = replicate LW_PACKET_RECV_SIZE 0, data_size = 0,
          payload_size = 0, parse_state = LW_PARSESTATE_START, command_id = 0\<rparr>) (take 6 buf) =
        Some ([LW_RESULT_AGAIN, LW_RESULT_AGAIN, LW_RESULT_AGAIN, LW_RESULT_AGAIN,
               LW_RESULT_AGAIN, LW_RESULT_SUCCESS], r') \<and>
      parse_state r' = LW_PARSESTATE_DONE \<and> command_id r' = 5 \<and> payload_size r' = 1)"
  using read_request_5_roundtrip [of "replicate LW_PACKET_SEND_SIZE 0"
      "\<lparr>data = replicate LW_PACKET_RECV_SIZE 0, data_size = 0,
          payload_size = 0, parse_state = LW_PARSESTATE_START, command_id = 0\<rparr>"]
  by (simp add: LW_PACKET_SEND_SIZE_def)

text \<open>
  Claim C3: for every command id, write flag and payload with
  \<open>length payload + 1 \<le> LW_PACKET_RECV_SIZE - 5\<close>, the bytes that \<^verbatim>\<open>lw_create_packet\<close>
  writes, fed one at a time to a freshly initialised response, give
  \<^verbatim>\<open>LW_RESULT_AGAIN\<close> on every byte but the last and \<^verbatim>\<open>LW_RESULT_SUCCESS\<close> on the
  last; then the command id of the response is the one given and
  \<^verbatim>\<open>lw_parse_packet_data\<close> copies the payload out.
\<close>

theorem packet_roundtrip:
  fixes payload :: "8 word list"
  assumes "length (data r) = LW_PACKET_RECV_SIZE"
    and "6 + length payload \<le> length packet_buffer"
    and "length payload + 1 \<le> LW_PACKET_RECV_SIZE - 5"
    and "length payload \<le> length out"
  shows "\<exists>buf r'.
           lw_create_packet packet_buffer cmd write payload (of_nat (length payload)) =
             Some (of_nat (6 + length payload), buf) \<and>
           feed_bytes (lw_init_response r) (take (6 + length payload) buf) =
             Some (replicate (5 + length payload) LW_RESULT_AGAIN @ [LW_RESULT_SUCCESS], r') \<and>
           command_id r' = cmd \<and>
           lw_parse_packet_data (data r') out (of_nat (length payload)) 0 =
             Some (payload @ drop (length payload) out)"
proof -
  have l: "length (data (lw_init_response r)) = LW_PACKET_RECV_SIZE"
    using assms(1) by (simp add: lw_init_response_def)
  have s: "parse_state (lw_init_response r) = LW_PARSESTATE_START \<or>
     parse_state (lw_init_response r) = LW_PARSESTATE_DONE"
    by (simp add: lw_init_response_def)
  from roundtrip_from_idle [OF l s assms(2) assms(3) assms(4), of cmd "write"]
  show ?thesis by blast
qed

theorem packet_roundtrip_witness:
  "length (data \<lparr>data = replicate LW_PACKET_RECV_SIZE 0, data_size = 0, payload_size = 0,
       parse_state = LW_PARSESTATE_PAYLOAD, command_id = 0\<rparr>) = LW_PACKET_RECV_SIZE \<and>
   6 + length [1, 2, 3 :: 8 word] \<le> length (replicate LW_PACKET_SEND_SIZE (0 :: 8 word)) \<and>
   length [1, 2, 3 :: 8 word] + 1 \<le> LW_PACKET_RECV_SIZE - 5 \<and>
   length [1, 2, 3 :: 8 word] \<le> length [0, 0, 0 :: 8 word] \<and>
   (\<exists>buf r'.
      lw_create_packet (replicate LW_PACKET_SEND_SIZE 0) 7 1 [1, 2, 3] 3 = Some (9, buf) \<and>
      feed_bytes (lw_init_response \<lparr>data = replicate LW_PACKET_RECV_SIZE 0, data_size = 0,
          payload_size = 0, parse_state = LW_PARSESTATE_PAYLOAD, command_id = 0\<rparr>) (take 9 buf) =
        Some (replicate 8 LW_RESULT_AGAIN @ [LW_RESULT_SUCCESS], r') \<and>
      command_id r' = 7 \<and>
      lw_parse_packet_data (data r') [0, 0, 0] 3 0 = Some [1, 2, 3])"
  using packet_roundtrip [of "\<lparr>data = replicate LW_PACKET_RECV_SIZE 0, data_size = 0,
          payload_size = 0, parse_state = LW_PARSESTATE_PAYLOAD, command_id = 0\<rparr>"
      "[1, 2, 3]" "replicate LW_PACKET_SEND_SIZE 0" "[0, 0, 0]" 7 1]
  by (simp add: LW_PACKET_RECV_SIZE_def LW_PACKET_SEND_SIZE_def)

section \<open>The decoder reports no error\<close>

lemma unat_of_nat16: "n < 2 ^ 16 \<Longrightarrow> unat (of_nat n :: 16 word) = n"
  by (simp add: unat_of_nat take_bit_nat_eq_self)

text \<open>
  Claim C5: a call of \<^verbatim>\<open>lw_feed_response\<close> that returns, from any response at all,
  returns \<^verbatim>\<open>LW_RESULT_SUCCESS\<close> or \<^verbatim>\<open>LW_RESULT_AGAIN\<close>, so the branch of
  \<^verbatim>\<open>LW_PARSESTATE_DONE\<close> with its \<^verbatim>\<open>LW_RESULT_ERROR\<close> is never taken; from an initialised
  response every byte of every sequence gets one of these two results; and a frame of the
  right structure (start byte, flag bytes declaring the length of the body, body, two
  checksum bytes) whose checksum bytes do not match gets \<^verbatim>\<open>LW_RESULT_AGAIN\<close> on every
  byte and leaves the decoder in the start state.
\<close>

theorem decoder_never_errors:
  "(lw_feed_response r b = Some (res, r') \<longrightarrow>
      res = LW_RESULT_SUCCESS \<or> res = LW_RESULT_AGAIN) \<and>
   (length (data r0) = LW_PACKET_RECV_SIZE \<longrightarrow>
      (\<exists>rs r1. feed_bytes (lw_init_response r0) bs = Some (rs, r1) \<and>
         length rs = length bs \<and> set rs \<subseteq> {LW_RESULT_SUCCESS, LW_RESULT_AGAIN})) \<and>
   (length (data r0) = LW_PACKET_RECV_SIZE \<and>
    unat (drop_bit 6 (ucast lo OR push_bit 8 (ucast hi) :: 32 word)) = length body \<and>
    1 \<le> length body \<and> length body + 5 \<le> LW_PACKET_RECV_SIZE \<and>
    lw_create_crc ([LW_PACKET_START_BYTE, lo, hi] @ body) (of_nat (3 + length body)) \<noteq>
      Some (ucast c1 OR push_bit 8 (ucast c2)) \<longrightarrow>
      (\<exists>r1. feed_bytes (lw_init_response r0) ([LW_PACKET_START_BYTE, lo, hi] @ body @ [c1, c2]) =
              Some (replicate (length body + 5) LW_RESULT_AGAIN, r1) \<and>
            parse_state r1 = LW_PARSESTATE_START))"
proof (intro conjI impI)
  assume "lw_feed_response r b = Some (res, r')"
  then show "res = LW_RESULT_SUCCESS \<or> res = LW_RESULT_AGAIN" by (rule feed_result_cases)
next
  assume "length (data r0) = LW_PACKET_RECV_SIZE"
  then have "response_inv (lw_init_response r0)" by (rule response_inv_init)
  from feed_bytes_inv [OF this, of bs]
  show "\<exists>rs r1. feed_bytes (lw_init_response r0) bs = Some (rs, r1) \<and>
         length rs = length bs \<and> set rs \<subseteq> {LW_RESULT_SUCCESS, LW_RESULT_AGAIN}"
    by blast
next
  assume a: "length (data r0) = LW_PACKET_RECV_SIZE \<and>
    unat (drop_bit 6 (ucast lo OR push_bit 8 (ucast hi) :: 32 word)) = length body \<and>
    1 \<le> length body \<and> length body + 5 \<le> LW_PACKET_RECV_SIZE \<and>
    lw_create_crc ([LW_PACKET_START_BYTE, lo, hi] @ body) (of_nat (3 + length body)) \<noteq>
      Some (ucast c1 OR push_bit 8 (ucast c2))"
  have l: "length (data (lw_init_response r0)) = LW_PACKET_RECV_SIZE"
    using a by (simp add: lw_init_response_def)
  have s: "parse_state (lw_init_response r0) = LW_PARSESTATE_START \<or>
     parse_state (lw_init_response r0) = LW_PARSESTATE_DONE"
    by (simp add: lw_init_response_def)
  have p: "unat (declared_payload_size lo hi) = length body"
    using a by (simp add: declared_payload_size_def)
  have p1: "1 \<le> length body" and p2: "length body + 5 \<le> LW_PACKET_RECV_SIZE"
    using a by simp_all
  have u: "unat (of_nat (3 + length body) :: 16 word) = 3 + length body"
    using p2 by (intro unat_of_nat16) (simp add: LW_PACKET_RECV_SIZE_def)
  have bad: "\<not> ((ucast c1 OR push_bit 8 (ucast c2) :: 16 word) =
               fold (\<lambda>b crc. lw_create_crc_step crc b) ([LW_PACKET_START_BYTE, lo, hi] @ body) 0)"
    using a unfolding lw_create_crc_def u by auto
  have ok: "False \<longleftrightarrow> (ucast c1 OR push_bit 8 (ucast c2) :: 16 word) =
               fold (\<lambda>b crc. lw_create_crc_step crc b) ([LW_PACKET_START_BYTE, lo, hi] @ body) 0"
    using bad by simp
  from feed_frame [OF l s p p1 p2 ok] obtain r1 where
    f: "feed_bytes (lw_init_response r0) ([LW_PACKET_START_BYTE, lo, hi] @ body @ [c1, c2]) =
             Some (replicate (length body + 4) LW_RESULT_AGAIN @ [LW_RESULT_AGAIN], r1)"
    and "parse_state r1 = LW_PARSESTATE_START"
    by auto
  moreover have "replicate (length body + 4) LW_RESULT_AGAIN @ [LW_RESULT_AGAIN] =
      replicate (length body + 5) LW_RESULT_AGAIN"
  proof -
    have "length body + 5 = Suc (length body + 4)" by arith
    then show ?thesis by (simp only: replicate_Suc replicate_append_same)
  qed
  ultimately show "\<exists>r1. feed_bytes (lw_init_response r0)
              ([LW_PACKET_START_BYTE, lo, hi] @ body @ [c1, c2]) =
              Some (replicate (length body + 5) LW_RESULT_AGAIN, r1) \<and>
            parse_state r1 = LW_PARSESTATE_START"
    by (intro exI [of _ r1]) (simp only:)
qed


theorem decoder_never_errors_witness:
  "(lw_feed_response (lw_init_response \<lparr>data = replicate LW_PACKET_RECV_SIZE 0, data_size = 0,
        payload_size = 0, parse_state = LW_PARSESTATE_START, command_id = 0\<rparr>) 0xAA =
      Some (LW_RESULT_AGAIN, \<lparr>data = 0xAA # replicate 63 0, data_size = 0,
        payload_size = 0, parse_state = LW_PARSESTATE_FLAGS1, command_id = 0xFF\<rparr>)) \<and>
   length (data \<lparr>data = replicate LW_PACKET_RECV_SIZE 0, data_size = 0,
        payload_size = 0, parse_state = LW_PARSESTATE_START, command_id = 0\<rparr>) = LW_PACKET_RECV_SIZE \<and>
   unat (drop_bit 6 (ucast (0x40 :: 8 word) OR push_bit 8 (ucast (0 :: 8 word)) :: 32 word)) =
     length [5 :: 8 word] \<and>
   1 \<le> length [5 :: 8 word] \<and> length [5 :: 8 word] + 5 \<le> LW_PACKET_RECV_SIZE \<and>
   lw_create_crc ([LW_PACKET_START_BYTE, 0x40, 0] @ [5]) (of_nat (3 + length [5 :: 8 word])) \<noteq>
      Some (ucast (0xD5 :: 8 word) OR push_bit 8 (ucast (0xCE :: 8 word))) \<and>
   (\<exists>r1. feed_bytes (lw_init_response \<lparr>data = replicate LW_PACKET_RECV_SIZE 0, data_size = 0,
        payload_size = 0, parse_state = LW_PARSESTATE_START, command_id = 0\<rparr>)
          ([LW_PACKET_START_BYTE, 0x40, 0] @ [5] @ [0xD5, 0xCE]) =
        Some (replicate (length [5 :: 8 word] + 5) LW_RESULT_AGAIN, r1) \<and>
      parse_state r1 = LW_PARSESTATE_START)"
proof -
  let ?r = "\<lparr>data = replicate LW_PACKET_RECV_SIZE (0 :: 8 word), data_size = 0,
        payload_size = 0, parse_state = LW_PARSESTATE_START, command_id = 0 :: 8 word\<rparr>"
  have f: "lw_feed_response (lw_init_response ?r) 0xAA =
      Some (LW_RESULT_AGAIN, \<lparr>data = 0xAA # replicate 63 0, data_size = 0,
        payload_size = 0, parse_state = LW_PARSESTATE_FLAGS1, command_id = 0xFF\<rparr>)"
    by code_simp
  have h: "length (data ?r) = LW_PACKET_RECV_SIZE \<and>
    unat (drop_bit 6 (ucast (0x40 :: 8 word) OR push_bit 8 (ucast (0 :: 8 word)) :: 32 word)) =
      length [5 :: 8 word] \<and>
    1 \<le> length [5 :: 8 word] \<and> length [5 :: 8 word] + 5 \<le> LW_PACKET_RECV_SIZE \<and>
    lw_create_crc ([LW_PACKET_START_BYTE, 0x40, 0] @ [5]) (of_nat (3 + length [5 :: 8 word])) \<noteq>
      Some (ucast (0xD5 :: 8 word) OR push_bit 8 (ucast (0xCE :: 8 word)))"
    by (simp add: LW_PACKET_RECV_SIZE_def LW_PACKET_START_BYTE_def lw_create_crc_def
        lw_create_crc_step_def)
  from decoder_never_errors [of "lw_init_response ?r" "0xAA" LW_RESULT_AGAIN
      "\<lparr>data = 0xAA # replicate 63 0, data_size = 0,
        payload_size = 0, parse_state = LW_PARSESTATE_FLAGS1, command_id = 0xFF\<rparr>"
      ?r "[]" "0x40" 0 "[5]" "0xD5" "0xCE"] h
  have "\<exists>r1. feed_bytes (lw_init_response ?r)
          ([LW_PACKET_START_BYTE, 0x40, 0] @ [5] @ [0xD5, 0xCE]) =
        Some (replicate (length [5 :: 8 word] + 5) LW_RESULT_AGAIN, r1) \<and>
      parse_state r1 = LW_PARSESTATE_START"
    by blast
  with f h show ?thesis by blast
qed

section \<open>Decoding goes on after a completed packet\<close>

text \<open>
  Claim C6: a call on a response in the state \<^verbatim>\<open>LW_PARSESTATE_DONE\<close> is the call on the
  reinitialised response, which is in the start state.  So the bytes of a second packet
  fed right after the last byte of a first one, with no reset in between, are decoded
  like the first: every call returns one result, \<^verbatim>\<open>LW_RESULT_AGAIN\<close> on every byte but
  the last of each packet and \<^verbatim>\<open>LW_RESULT_SUCCESS\<close> on these two, and the response then
  holds the command id and the payload of the second packet.
\<close>

theorem decode_after_completion:
  fixes p1 p2 :: "8 word list"
  shows
  "(parse_state r = LW_PARSESTATE_DONE \<longrightarrow>
      lw_feed_response r b = lw_feed_response (lw_init_response r) b \<and>
      parse_state (lw_init_response r) = LW_PARSESTATE_START) \<and>
   (length (data r0) = LW_PACKET_RECV_SIZE \<and>
    6 + length p1 \<le> length pb1 \<and> length p1 + 1 \<le> LW_PACKET_RECV_SIZE - 5 \<and>
    6 + length p2 \<le> length pb2 \<and> length p2 + 1 \<le> LW_PACKET_RECV_SIZE - 5 \<and>
    length p2 \<le> length out \<longrightarrow>
    (\<exists>buf1 buf2 r1 r2.
       lw_create_packet pb1 cmd1 w1 p1 (of_nat (length p1)) = Some (of_nat (6 + length p1), buf1) \<and>
       lw_create_packet pb2 cmd2 w2 p2 (of_nat (length p2)) = Some (of_nat (6 + length p2), buf2) \<and>
       feed_bytes (lw_init_response r0) (take (6 + length p1) buf1) =
         Some (replicate (5 + length p1) LW_RESULT_AGAIN @ [LW_RESULT_SUCCESS], r1) \<and>
       parse_state r1 = LW_PARSESTATE_DONE \<and> command_id r1 = cmd1 \<and>
       feed_bytes r1 (take (6 + length p2) buf2) =
         Some (replicate (5 + length p2) LW_RESULT_AGAIN @ [LW_RESULT_SUCCESS], r2) \<and>
       parse_state r2 = LW_PARSESTATE_DONE \<and> command_id r2 = cmd2 \<and>
       lw_parse_packet_data (data r2) out (of_nat (length p2)) 0 =
         Some (p2 @ drop (length p2) out) \<and>
       feed_bytes (lw_init_response r0)
           (take (6 + length p1) buf1 @ take (6 + length p2) buf2) =
         Some ((replicate (5 + length p1) LW_RESULT_AGAIN @ [LW_RESULT_SUCCESS]) @
               (replicate (5 + length p2) LW_RESULT_AGAIN @ [LW_RESULT_SUCCESS]), r2)))"
proof (intro conjI impI)
  assume d: "parse_state r = LW_PARSESTATE_DONE"
  show "lw_feed_response r b = lw_feed_response (lw_init_response r) b"
    by (rule feed_DONE [OF d])
  show "parse_state (lw_init_response r) = LW_PARSESTATE_START"
    by (simp add: lw_init_response_def)
next
  assume a: "length (data r0) = LW_PACKET_RECV_SIZE \<and>
    6 + length p1 \<le> length pb1 \<and> length p1 + 1 \<le> LW_PACKET_RECV_SIZE - 5 \<and>
    6 + length p2 \<le> length pb2 \<and> length p2 + 1 \<le> LW_PACKET_RECV_SIZE - 5 \<and>
    length p2 \<le> length out"
  have l: "length (data (lw_init_response r0)) = LW_PACKET_RECV_SIZE"
    using a by (simp add: lw_init_response_def)
  have s: "parse_state (lw_init_response r0) = LW_PARSESTATE_START \<or>
     parse_state (lw_init_response r0) = LW_PARSESTATE_DONE"
    by (simp add: lw_init_response_def)
  have f1: "6 + length p1 \<le> length pb1" and c1: "length p1 + 1 \<le> LW_PACKET_RECV_SIZE - 5"
    and f2: "6 + length p2 \<le> length pb2" and c2: "length p2 + 1 \<le> LW_PACKET_RECV_SIZE - 5"
    and o2: "length p2 \<le> length out" and o1: "length p1 \<le> length p1"
    using a by simp_all
  from roundtrip_from_idle [OF l s f1 c1 o1, of cmd1 w1] obtain buf1 r1 where
    cp1: "lw_create_packet pb1 cmd1 w1 p1 (of_nat (length p1)) = Some (of_nat (6 + length p1), buf1)"
    and fb1: "feed_bytes (lw_init_response r0) (take (6 + length p1) buf1) =
         Some (replicate (5 + length p1) LW_RESULT_AGAIN @ [LW_RESULT_SUCCESS], r1)"
    and r1: "parse_state r1 = LW_PARSESTATE_DONE" "length (data r1) = LW_PACKET_RECV_SIZE"
      "command_id r1 = cmd1"
    by blast
  have s1: "parse_state r1 = LW_PARSESTATE_START \<or> parse_state r1 = LW_PARSESTATE_DONE"
    using r1 by simp
  from roundtrip_from_idle [OF r1(2) s1 f2 c2 o2, of cmd2 w2] obtain buf2 r2 where
    cp2: "lw_create_packet pb2 cmd2 w2 p2 (of_nat (length p2)) = Some (of_nat (6 + length p2), buf2)"
    and fb2: "feed_bytes r1 (take (6 + length p2) buf2) =
         Some (replicate (5 + length p2) LW_RESULT_AGAIN @ [LW_RESULT_SUCCESS], r2)"
    and r2: "parse_state r2 = LW_PARSESTATE_DONE" "command_id r2 = cmd2"
      "lw_parse_packet_data (data r2) out (of_nat (length p2)) 0 =
         Some (p2 @ drop (length p2) out)"
    by blast
  note both = feed_bytes_append_Some [OF fb1 fb2]
  from cp1 cp2 fb1 r1 fb2 r2 both
  show "\<exists>buf1 buf2 r1 r2.
       lw_create_packet pb1 cmd1 w1 p1 (of_nat (length p1)) = Some (of_nat (6 + length p1), buf1) \<and>
       lw_create_packet pb2 cmd2 w2 p2 (of_nat (length p2)) = Some (of_nat (6 + length p2), buf2) \<and>
       feed_bytes (lw_init_response r0) (take (6 + length p1) buf1) =
         Some (replicate (5 + length p1) LW_RESULT_AGAIN @ [LW_RESULT_SUCCESS], r1) \<and>
       parse_state r1 = LW_PARSESTATE_DONE \<and> command_id r1 = cmd1 \<and>
       feed_bytes r1 (take (6 + length p2) buf2) =
         Some (replicate (5 + length p2) LW_RESULT_AGAIN @ [LW_RESULT_SUCCESS], r2) \<and>
       parse_state r2 = LW_PARSESTATE_DONE \<and> command_id r2 = cmd2 \<and>
       lw_parse_packet_data (data r2) out (of_nat (length p2)) 0 =
         Some (p2 @ drop (length p2) out) \<and>
       feed_bytes (lw_init_response r0)
           (take (6 + length p1) buf1 @ take (6 + length p2) buf2) =
         Some ((replicate (5 + length p1) LW_RESULT_AGAIN @ [LW_RESULT_SUCCESS]) @
               (replicate (5 + length p2) LW_RESULT_AGAIN @ [LW_RESULT_SUCCESS]), r2)"
    by blast
qed

theorem decode_after_completion_witness:
  "parse_state \<lparr>data = replicate LW_PACKET_RECV_SIZE 0, data_size = 6, payload_size = 1,
       parse_state = LW_PARSESTATE_DONE, command_id = 5\<rparr> = LW_PARSESTATE_DONE \<and>
   lw_feed_response \<lparr>data = replicate LW_PACKET_RECV_SIZE 0, data_size = 6, payload_size = 1,
       parse_state = LW_PARSESTATE_DONE, command_id = 5\<rparr> 0xAA =
     lw_feed_response (lw_init_response \<lparr>data = replicate LW_PACKET_RECV_SIZE 0, data_size = 6,
       payload_size = 1, parse_state = LW_PARSESTATE_DONE, command_id = 5\<rparr>) 0xAA \<and>
   length (data \<lparr>data = replicate LW_PACKET_RECV_SIZE 0, data_size = 6, payload_size = 1,
       parse_state = LW_PARSESTATE_DONE, command_id = 5\<rparr>) = LW_PACKET_RECV_SIZE \<and>
   6 + length ([] :: 8 word list) \<le> length (replicate LW_PACKET_SEND_SIZE (0 :: 8 word)) \<and>
   length ([] :: 8 word list) + 1 \<le> LW_PACKET_RECV_SIZE - 5 \<and>
   6 + length [9, 8 :: 8 word] \<le> length (replicate LW_PACKET_SEND_SIZE (0 :: 8 word)) \<and>
   length [9, 8 :: 8 word] + 1 \<le> LW_PACKET_RECV_SIZE - 5 \<and>
   length [9, 8 :: 8 word] \<le> length [0, 0 :: 8 word] \<and>
   (\<exists>buf1 buf2 r2.
       lw_create_packet (replicate LW_PACKET_SEND_SIZE 0) 5 0 [] 0 = Some (6, buf1) \<and>
       lw_create_packet (replicate LW_PACKET_SEND_SIZE 0) 7 1 [9, 8] 2 = Some (8, buf2) \<and>
       feed_bytes (lw_init_response \<lparr>data = replicate LW_PACKET_RECV_SIZE 0, data_size = 6,
           payload_size = 1, parse_state = LW_PARSESTATE_DONE, command_id = 5\<rparr>)
           (take 6 buf1 @ take 8 buf2) =
         Some ((replicate 5 LW_RESULT_AGAIN @ [LW_RESULT_SUCCESS]) @
               (replicate 7 LW_RESULT_AGAIN @ [LW_RESULT_SUCCESS]), r2) \<and>
       command_id r2 = 7 \<and>
       lw_parse_packet_data (data r2) [0, 0] 2 0 = Some [9, 8])"
proof -
  let ?r = "\<lparr>data = replicate LW_PACKET_RECV_SIZE (0 :: 8 word), data_size = 6, payload_size = 1,
       parse_state = LW_PARSESTATE_DONE, command_id = 5 :: 8 word\<rparr>"
  let ?pb = "replicate LW_PACKET_SEND_SIZE (0 :: 8 word)"
  note t = decode_after_completion [of ?r "0xAA" ?r "[]" ?pb "[9, 8]" ?pb "[0, 0]" 5 0 7 1]
  have h1: "parse_state ?r = LW_PARSESTATE_DONE" by simp
  have h2: "length (data ?r) = LW_PACKET_RECV_SIZE \<and>
    6 + length ([] :: 8 word list) \<le> length ?pb \<and>
    length ([] :: 8 word list) + 1 \<le> LW_PACKET_RECV_SIZE - 5 \<and>
    6 + length [9, 8 :: 8 word] \<le> length ?pb \<and>
    length [9, 8 :: 8 word] + 1 \<le> LW_PACKET_RECV_SIZE - 5 \<and>
    length [9, 8 :: 8 word] \<le> length [0, 0 :: 8 word]"
    by (simp add: LW_PACKET_RECV_SIZE_def LW_PACKET_SEND_SIZE_def)
  from t h1 have a: "lw_feed_response ?r 0xAA = lw_feed_response (lw_init_response ?r) 0xAA"
    by blast
  from t h2 obtain buf1 buf2 r2 where
    c1: "lw_create_packet ?pb 5 0 [] (of_nat (length ([] :: 8 word list))) =
           Some (of_nat (6 + length ([] :: 8 word list)), buf1)"
    and c2: "lw_create_packet ?pb 7 1 [9, 8] (of_nat (length [9, 8 :: 8 word])) =
           Some (of_nat (6 + length [9, 8 :: 8 word]), buf2)"
    and f: "feed_bytes (lw_init_response ?r)
           (take (6 + length ([] :: 8 word list)) buf1 @ take (6 + length [9, 8 :: 8 word]) buf2) =
         Some ((replicate (5 + length ([] :: 8 word list)) LW_RESULT_AGAIN @ [LW_RESULT_SUCCESS]) @
               (replicate (5 + length [9, 8 :: 8 word]) LW_RESULT_AGAIN @ [LW_RESULT_SUCCESS]), r2)"
    and c: "command_id r2 = 7"
    and d: "lw_parse_packet_data (data r2) [0, 0] (of_nat (length [9, 8 :: 8 word])) 0 =
         Some ([9, 8] @ drop (length [9, 8 :: 8 word]) [0, 0])"
    by blast
  have c1': "lw_create_packet ?pb 5 0 [] 0 = Some (6, buf1)" using c1 by simp
  have c2': "lw_create_packet ?pb 7 1 [9, 8] 2 = Some (8, buf2)" using c2 by simp
  have e: "6 + length ([] :: 8 word list) = 6" "6 + length [9, 8 :: 8 word] = 8"
    "5 + length ([] :: 8 word list) = 5" "5 + length [9, 8 :: 8 word] = 7" by simp_all
  have f': "feed_bytes (lw_init_response ?r) (take 6 buf1 @ take 8 buf2) =
         Some ((replicate 5 LW_RESULT_AGAIN @ [LW_RESULT_SUCCESS]) @
               (replicate 7 LW_RESULT_AGAIN @ [LW_RESULT_SUCCESS]), r2)"
    using f unfolding e .
  have d': "lw_parse_packet_data (data r2) [0, 0] 2 0 = Some [9, 8]" using d by simp
  from c1' c2' f' c d' have b: "\<exists>buf1 buf2 r2.
       lw_create_packet ?pb 5 0 [] 0 = Some (6, buf1) \<and>
       lw_create_packet ?pb 7 1 [9, 8] 2 = Some (8, buf2) \<and>
       feed_bytes (lw_init_response ?r) (take 6 buf1 @ take 8 buf2) =
         Some ((replicate 5 LW_RESULT_AGAIN @ [LW_RESULT_SUCCESS]) @
               (replicate 7 LW_RESULT_AGAIN @ [LW_RESULT_SUCCESS]), r2) \<and>
       command_id r2 = 7 \<and>
       lw_parse_packet_data (data r2) [0, 0] 2 0 = Some [9, 8]"
    by blast
  from h1 a h2 b show ?thesis by blast
qed

section \<open>The wait loop\<close>

lemma feed_success_done:
  "lw_feed_response r b = Some (LW_RESULT_SUCCESS, r') \<Longrightarrow> parse_state r' = LW_PARSESTATE_DONE"
  by (auto simp: lw_feed_response_def lw_init_response_def Let_def
      split: if_splits lw_packet_parse_state.splits bind_splits)

text \<open>What a result of the loop says about the mode and about the response.\<close>

lemma wait_loop_result:
  "lw_wait_loop d cmd t tt = Some y \<Longrightarrow>
   (fst y = LW_RESULT_AGAIN \<longrightarrow> t = 0) \<and>
   (fst y = LW_RESULT_TIMEOUT \<longrightarrow> t \<noteq> 0) \<and>
   (fst y = LW_RESULT_SUCCESS \<longrightarrow>
      parse_state (response (snd y)) = LW_PARSESTATE_DONE \<and>
      (cmd = LW_ANY_COMMAND \<or> command_id (response (snd y)) = cmd)) \<and>
   fst y \<in> {LW_RESULT_SUCCESS, LW_RESULT_ERROR, LW_RESULT_AGAIN, LW_RESULT_TIMEOUT}"
proof (induction d cmd t tt y rule: lw_wait_loop.raw_induct [rotated 1, consumes 1])
  case (1 loop d cmd t tt y)
  obtain now e1 where g: "(if t \<noteq> 0 then get_time_ms d (user_data d) else (0, user_data d)) = (now, e1)"
    by (cases "if t \<noteq> 0 then get_time_ms d (user_data d) else (0, user_data d)") 
  obtain n byte e2 where
    r: "serial_receive d e1 1 (if t \<noteq> 0 \<and> now < tt then tt - now else 0) = ((n, byte), e2)"
    by (metis surj_pair)
  note eq = "1.hyps" [unfolded g r Let_def prod.case]
  show ?case
  proof (cases "sint n = - 1")
    case True
    then show ?thesis using eq by auto
  next
    case False
    note ne = this
    show ?thesis
    proof (cases "0 < sint n")
      case True
      then obtain res r' where f: "lw_feed_response (response d) byte = Some (res, r')"
        using eq ne by (auto split: option.splits)
      show ?thesis
      proof (cases "res = LW_RESULT_SUCCESS \<and> (cmd = LW_ANY_COMMAND \<or> command_id r' = cmd)")
        case True
        then show ?thesis using eq ne \<open>0 < sint n\<close> f feed_success_done [of "response d" byte r']
          by auto
      next
        case False
        then have "loop (d\<lparr>user_data := e2, response := r'\<rparr>) cmd t tt = Some y"
          using eq ne \<open>0 < sint n\<close> f by (auto split: if_splits)
        then show ?thesis by (rule "1.IH")
      qed
    next
      case False
      show ?thesis
      proof (cases "t = 0 \<or> (if t \<noteq> 0 \<and> now < tt then tt - now else 0) = 0")
        case True
        then show ?thesis using eq ne \<open>\<not> 0 < sint n\<close> by (auto split: if_splits)
      next
        case False
        then have "loop (d\<lparr>user_data := e2\<rparr>) cmd t tt = Some y"
          using eq ne \<open>\<not> 0 < sint n\<close> by (auto split: if_splits)
        then show ?thesis by (rule "1.IH")
      qed
    qed
  qed
qed

text \<open>One iteration of the loop, given what the clock and the receive call return.\<close>

lemma wait_loop_iteration:
  assumes g: "(if t \<noteq> 0 then get_time_ms d (user_data d) else (0, user_data d)) = (now, e1)"
    and l: "left = (if t \<noteq> 0 \<and> now < tt then tt - now else 0)"
    and r: "serial_receive d e1 1 left = ((n, byte), e2)"
  shows "lw_wait_loop d cmd t tt =
     (if sint n = - 1 then Some (LW_RESULT_ERROR, d\<lparr>user_data := e2\<rparr>)
      else if 0 < sint n then
        (case lw_feed_response (response d) byte of
           None \<Rightarrow> None
         | Some (res, r') \<Rightarrow>
             if res = LW_RESULT_SUCCESS \<and> (cmd = LW_ANY_COMMAND \<or> command_id r' = cmd)
             then Some (LW_RESULT_SUCCESS, d\<lparr>user_data := e2, response := r'\<rparr>)
             else lw_wait_loop (d\<lparr>user_data := e2, response := r'\<rparr>) cmd t tt)
      else if t = 0 then Some (LW_RESULT_AGAIN, d\<lparr>user_data := e2\<rparr>)
      else if left = 0 then Some (LW_RESULT_TIMEOUT, d\<lparr>user_data := e2\<rparr>)
      else lw_wait_loop (d\<lparr>user_data := e2\<rparr>) cmd t tt)"
proof -
  have r': "serial_receive d e1 1 (if t \<noteq> 0 \<and> now < tt then tt - now else 0) = ((n, byte), e2)"
    using r l by simp
  show ?thesis
    unfolding l by (subst lw_wait_loop.simps) (simp add: g r' Let_def)
qed

lemma wait_nonblocking_loop:
  "lw_wait_for_next_response d cmd 0 = lw_wait_loop d cmd 0 0"
  by (simp add: lw_wait_for_next_response_def)

lemmas script_simps = script_device_def script_get_time_ms_def script_serial_receive_def
  script_serial_send_def lw_wait_for_next_response_def lw_init_response_def Let_def

section \<open>Waiting with a deadline\<close>

text \<open>
  Claim C4, as stated: in blocking mode the call returns \<^verbatim>\<open>LW_RESULT_TIMEOUT\<close> whenever
  the remaining time to the deadline is 0.  The source tests the remaining time only
  after the receive call and only when that call gave no byte.  With the deadline 1000
  and a clock that reads 5000 in every iteration, a transport that delivers the six
  bytes of a packet for command 5 makes the call return \<^verbatim>\<open>LW_RESULT_SUCCESS\<close> (from the
  entry of \<^verbatim>\<open>lw_wait_for_next_response\<close> with the first clock reading 0 and the timeout
  1000, and from the loop itself), and a receive result of \<open>-1\<close> makes it return
  \<^verbatim>\<open>LW_RESULT_ERROR\<close>.
\<close>

theorem wait_blocking_deadline_counterexample:
  "map_option fst (lw_wait_for_next_response
     (script_device \<lparr>clock = [0, 5000],
         rx = [(1, 0xAA), (1, 0x40), (1, 0), (1, 5), (1, 0xD5), (1, 0xCF)], sends = 0\<rparr>
        \<lparr>request_data = [], request_data_size = 0, request_command_id = 5\<rparr>) 5 1000) =
     Some LW_RESULT_SUCCESS \<and>
   map_option fst (lw_wait_loop
     (script_device \<lparr>clock = [5000],
         rx = [(1, 0xAA), (1, 0x40), (1, 0), (1, 5), (1, 0xD5), (1, 0xCF)], sends = 0\<rparr>
        \<lparr>request_data = [], request_data_size = 0, request_command_id = 5\<rparr>) 5 1000 1000) =
     Some LW_RESULT_SUCCESS \<and>
   map_option fst (lw_wait_loop
     (script_device \<lparr>clock = [5000], rx = [(- 1, 0)], sends = 0\<rparr>
        \<lparr>request_data = [], request_data_size = 0, request_command_id = 5\<rparr>) 5 1000 1000) =
     Some LW_RESULT_ERROR"
  by code_simp

text \<open>
  Claim C4, amended: in blocking mode (\<open>timeout_ms \<noteq> 0\<close>) the call never returns
  \<^verbatim>\<open>LW_RESULT_AGAIN\<close>; it reads the clock once at entry and runs the loop with the
  deadline \<open>t0 + timeout_ms\<close> (modulo \<open>2^32\<close>).  An iteration whose clock reading is not
  below the deadline still calls the receive, with the timeout 0: a count of \<open>-1\<close> ends
  the call with \<^verbatim>\<open>LW_RESULT_ERROR\<close>; a positive count feeds the byte to the decoder, and
  the call ends with \<^verbatim>\<open>LW_RESULT_SUCCESS\<close> when that completes a matching packet and goes
  on with the next iteration otherwise; any other count ends the call with
  \<^verbatim>\<open>LW_RESULT_TIMEOUT\<close>.  An iteration whose clock reading is below the deadline calls
  the receive with the remaining time and does the same, except that a count that is
  neither \<open>-1\<close> nor positive leads to the next iteration.
\<close>

theorem wait_blocking_deadline:
  "timeout_ms \<noteq> 0 \<longrightarrow>
     (lw_wait_for_next_response d cmd timeout_ms = Some (res, dr) \<longrightarrow> res \<noteq> LW_RESULT_AGAIN) \<and>
     (get_time_ms d (user_data d) = (t0, e0) \<longrightarrow>
        lw_wait_for_next_response d cmd timeout_ms =
          lw_wait_loop (d\<lparr>user_data := e0\<rparr>) cmd timeout_ms (t0 + timeout_ms)) \<and>
     (get_time_ms d1 (user_data d1) = (now, e1) \<and> \<not> now < timeout_time \<and>
      serial_receive d1 e1 1 0 = ((n, byte), e2) \<longrightarrow>
        lw_wait_loop d1 cmd timeout_ms timeout_time =
          (if sint n = - 1 then Some (LW_RESULT_ERROR, d1\<lparr>user_data := e2\<rparr>)
           else if 0 < sint n then
             (case lw_feed_response (response d1) byte of
                None \<Rightarrow> None
              | Some (fr, r') \<Rightarrow>
                  if fr = LW_RESULT_SUCCESS \<and> (cmd = LW_ANY_COMMAND \<or> command_id r' = cmd)
                  then Some (LW_RESULT_SUCCESS, d1\<lparr>user_data := e2, response := r'\<rparr>)
                  else lw_wait_loop (d1\<lparr>user_data := e2, response := r'\<rparr>) cmd
                         timeout_ms timeout_time)
           else Some (LW_RESULT_TIMEOUT, d1\<lparr>user_data := e2\<rparr>))) \<and>
     (get_time_ms d2 (user_data d2) = (now2, e3) \<and> now2 < timeout_time \<and>
      serial_receive d2 e3 1 (timeout_time - now2) = ((m, byte2), e4) \<longrightarrow>
        lw_wait_loop d2 cmd timeout_ms timeout_time =
          (if sint m = - 1 then Some (LW_RESULT_ERROR, d2\<lparr>user_data := e4\<rparr>)
           else if 0 < sint m then
             (case lw_feed_response (response d2) byte2 of
                None \<Rightarrow> None
              | Some (fr, r') \<Rightarrow>
                  if fr = LW_RESULT_SUCCESS \<and> (cmd = LW_ANY_COMMAND \<or> command_id r' = cmd)
                  then Some (LW_RESULT_SUCCESS, d2\<lparr>user_data := e4, response := r'\<rparr>)
                  else lw_wait_loop (d2\<lparr>user_data := e4, response := r'\<rparr>) cmd
                         timeout_ms timeout_time)
           else lw_wait_loop (d2\<lparr>user_data := e4\<rparr>) cmd timeout_ms timeout_time))"
proof (intro impI conjI)
  assume t: "timeout_ms \<noteq> 0"
  {
    assume w: "lw_wait_for_next_response d cmd timeout_ms = Some (res, dr)"
    obtain t0 e0 where g: "get_time_ms d (user_data d) = (t0, e0)"
      by (cases "get_time_ms d (user_data d)")
    from w have "lw_wait_loop (d\<lparr>user_data := e0\<rparr>) cmd timeout_ms (t0 + timeout_ms) = Some (res, dr)"
      using t by (simp add: lw_wait_for_next_response_def g)
    from wait_loop_result [OF this] t show "res \<noteq> LW_RESULT_AGAIN" by auto
  }
  {
    assume "get_time_ms d (user_data d) = (t0, e0)"
    then show "lw_wait_for_next_response d cmd timeout_ms =
          lw_wait_loop (d\<lparr>user_data := e0\<rparr>) cmd timeout_ms (t0 + timeout_ms)"
      using t by (simp add: lw_wait_for_next_response_def)
  }
  {
    assume a: "get_time_ms d1 (user_data d1) = (now, e1) \<and> \<not> now < timeout_time \<and>
      serial_receive d1 e1 1 0 = ((n, byte), e2)"
    have g: "(if timeout_ms \<noteq> 0 then get_time_ms d1 (user_data d1) else (0, user_data d1)) = (now, e1)"
      using a t by simp
    have l: "(0 :: 32 word) = (if timeout_ms \<noteq> 0 \<and> now < timeout_time then timeout_time - now else 0)"
      using a by simp
    have r: "serial_receive d1 e1 1 0 = ((n, byte), e2)" using a by simp
    show "lw_wait_loop d1 cmd timeout_ms timeout_time =
          (if sint n = - 1 then Some (LW_RESULT_ERROR, d1\<lparr>user_data := e2\<rparr>)
           else if 0 < sint n then
             (case lw_feed_response (response d1) byte of
                None \<Rightarrow> None
              | Some (fr, r') \<Rightarrow>
                  if fr = LW_RESULT_SUCCESS \<and> (cmd = LW_ANY_COMMAND \<or> command_id r' = cmd)
                  then Some (LW_RESULT_SUCCESS, d1\<lparr>user_data := e2, response := r'\<rparr>)
                  else lw_wait_loop (d1\<lparr>user_data := e2, response := r'\<rparr>) cmd
                         timeout_ms timeout_time)
           else Some (LW_RESULT_TIMEOUT, d1\<lparr>user_data := e2\<rparr>))"
      unfolding wait_loop_iteration [OF g l r, of cmd] using t by simp
  }
  {
    assume a: "get_time_ms d2 (user_data d2) = (now2, e3) \<and> now2 < timeout_time \<and>
      serial_receive d2 e3 1 (timeout_time - now2) = ((m, byte2), e4)"
    have g: "(if timeout_ms \<noteq> 0 then get_time_ms d2 (user_data d2) else (0, user_data d2)) = (now2, e3)"
      using a t by simp
    have l: "timeout_time - now2 =
        (if timeout_ms \<noteq> 0 \<and> now2 < timeout_time then timeout_time - now2 else 0)"
      using a t by simp
    have r: "serial_receive d2 e3 1 (timeout_time - now2) = ((m, byte2), e4)" using a by simp
    have nz: "timeout_time - now2 \<noteq> 0" using a by auto
    show "lw_wait_loop d2 cmd timeout_ms timeout_time =
          (if sint m = - 1 then Some (LW_RESULT_ERROR, d2\<lparr>user_data := e4\<rparr>)
           else if 0 < sint m then
             (case lw_feed_response (response d2) byte2 of
                None \<Rightarrow> None
              | Some (fr, r') \<Rightarrow>
                  if fr = LW_RESULT_SUCCESS \<and> (cmd = LW_ANY_COMMAND \<or> command_id r' = cmd)
                  then Some (LW_RESULT_SUCCESS, d2\<lparr>user_data := e4, response := r'\<rparr>)
                  else lw_wait_loop (d2\<lparr>user_data := e4, response := r'\<rparr>) cmd
                         timeout_ms timeout_time)
           else lw_wait_loop (d2\<lparr>user_data := e4\<rparr>) cmd timeout_ms timeout_time)"
      unfolding wait_loop_iteration [OF g l r, of cmd] using t nz by simp
  }
qed

theorem wait_blocking_deadline_witness:
  "(1000 :: 32 word) \<noteq> 0 \<and>
   lw_wait_for_next_response
     (script_device \<lparr>clock = [0, 2000], rx = [], sends = 0\<rparr>
        \<lparr>request_data = [], request_data_size = 0, request_command_id = 5\<rparr>) 5 1000 =
     Some (LW_RESULT_TIMEOUT,
       script_device \<lparr>clock = [2000], rx = [], sends = 0\<rparr>
        \<lparr>request_data = [], request_data_size = 0, request_command_id = 5\<rparr>) \<and>
   LW_RESULT_TIMEOUT \<noteq> LW_RESULT_AGAIN \<and>
   lw_wait_loop
     (script_device \<lparr>clock = [2000], rx = [(- 1, 0)], sends = 0\<rparr>
        \<lparr>request_data = [], request_data_size = 0, request_command_id = 5\<rparr>) 5 1000 1000 =
     Some (LW_RESULT_ERROR,
       script_device \<lparr>clock = [2000], rx = [], sends = 0\<rparr>
        \<lparr>request_data = [], request_data_size = 0, request_command_id = 5\<rparr>)"
proof -
  let ?req = "\<lparr>request_data = [], request_data_size = 0, request_command_id = 5\<rparr>"
  let ?e0 = "\<lparr>clock = [0, 2000], rx = [], sends = 0\<rparr>"
  let ?e1 = "\<lparr>clock = [2000], rx = [], sends = 0\<rparr>"
  let ?ex = "\<lparr>clock = [2000], rx = [(- 1, 0)], sends = 0\<rparr>"
  let ?d0 = "script_device ?e0 ?req" and ?d1 = "script_device ?e1 ?req"
  let ?dx = "script_device ?ex ?req"
  note t = wait_blocking_deadline [where timeout_ms = 1000 and d = ?d0 and cmd = 5
      and res = LW_RESULT_TIMEOUT and dr = ?d1 and ?t0.0 = 0 and ?e0.0 = ?e1 and ?d1.0 = ?d1
      and now = 2000 and ?e1.0 = ?e1 and timeout_time = 1000 and n = 0 and byte = 0
      and ?e2.0 = ?e1]
  note tx = wait_blocking_deadline [where timeout_ms = 1000 and cmd = 5 and ?d1.0 = ?dx
      and now = 2000 and ?e1.0 = ?ex and timeout_time = 1000 and n = "- 1" and byte = 0
      and ?e2.0 = ?e1]
  have nz: "(1000 :: 32 word) \<noteq> 0" by simp
  have g0: "get_time_ms ?d0 (user_data ?d0) = (0, ?e1)"
    by (simp add: script_device_def script_get_time_ms_def)
  have u0: "?d0\<lparr>user_data := ?e1\<rparr> = ?d1" by (simp add: script_device_def)
  have c: "get_time_ms ?d1 (user_data ?d1) = (2000, ?e1) \<and> \<not> (2000 :: 32 word) < 1000 \<and>
      serial_receive ?d1 ?e1 1 0 = ((0, 0), ?e1)"
    by (simp add: script_device_def script_get_time_ms_def script_serial_receive_def)
  have cx: "get_time_ms ?dx (user_data ?dx) = (2000, ?ex) \<and> \<not> (2000 :: 32 word) < 1000 \<and>
      serial_receive ?dx ?ex 1 0 = ((- 1, 0), ?e1)"
    by (simp add: script_device_def script_get_time_ms_def script_serial_receive_def)
  have u1: "?d1\<lparr>user_data := ?e1\<rparr> = ?d1" by (simp add: script_device_def)
  have ux: "?dx\<lparr>user_data := ?e1\<rparr> = ?d1" by (simp add: script_device_def)
  note t' = mp [OF t nz] and tx' = mp [OF tx nz]
  have "lw_wait_for_next_response ?d0 5 1000 =
      lw_wait_loop (?d0\<lparr>user_data := ?e1\<rparr>) 5 1000 (0 + 1000)"
    by (rule mp [OF conjunct1 [OF conjunct2 [OF t']] g0])
  also have "\<dots> = lw_wait_loop ?d1 5 1000 1000" by (simp only: u0) simp
  also have "\<dots> = Some (LW_RESULT_TIMEOUT, ?d1\<lparr>user_data := ?e1\<rparr>)"
    using mp [OF conjunct1 [OF conjunct2 [OF conjunct2 [OF t']]] c] by simp
  finally have w: "lw_wait_for_next_response ?d0 5 1000 = Some (LW_RESULT_TIMEOUT, ?d1)"
    by (simp only: u1)
  have a: "LW_RESULT_TIMEOUT \<noteq> LW_RESULT_AGAIN"
    by (rule mp [OF conjunct1 [OF t'] w])
  have "lw_wait_loop ?dx 5 1000 1000 = Some (LW_RESULT_ERROR, ?dx\<lparr>user_data := ?e1\<rparr>)"
    using mp [OF conjunct1 [OF conjunct2 [OF conjunct2 [OF tx']]] cx] by simp
  then have x: "lw_wait_loop ?dx 5 1000 1000 = Some (LW_RESULT_ERROR, ?d1)" by (simp only: ux)
  from nz w a x show ?thesis by blast
qed

section \<open>Waiting without blocking\<close>

text \<open>
  Claim C8: in non-blocking mode (\<open>timeout_ms = 0\<close>) the receive is called for one byte
  with the timeout 0.  A count of 0 ends the call with \<^verbatim>\<open>LW_RESULT_AGAIN\<close>, a count of
  \<open>-1\<close> with \<^verbatim>\<open>LW_RESULT_ERROR\<close>.  A positive count feeds the byte to the decoder: if
  this completes a packet whose command id is the expected one, or if
  \<^verbatim>\<open>LW_ANY_COMMAND\<close> is expected, the call returns \<^verbatim>\<open>LW_RESULT_SUCCESS\<close>; otherwise the
  same call goes on from the new state of the transport and of the response.  And a
  call that returns \<^verbatim>\<open>LW_RESULT_SUCCESS\<close> leaves a completed packet with a matching
  command id (or any, for \<^verbatim>\<open>LW_ANY_COMMAND\<close>).
\<close>

theorem wait_nonblocking:
  "(serial_receive d (user_data d) 1 0 = ((n, byte), e) \<longrightarrow>
      (sint n = 0 \<longrightarrow>
         lw_wait_for_next_response d cmd 0 = Some (LW_RESULT_AGAIN, d\<lparr>user_data := e\<rparr>)) \<and>
      (sint n = - 1 \<longrightarrow>
         lw_wait_for_next_response d cmd 0 = Some (LW_RESULT_ERROR, d\<lparr>user_data := e\<rparr>)) \<and>
      (0 < sint n \<and> lw_feed_response (response d) byte = Some (res, resp) \<longrightarrow>
         lw_wait_for_next_response d cmd 0 =
           (if res = LW_RESULT_SUCCESS \<and> (cmd = LW_ANY_COMMAND \<or> command_id resp = cmd)
            then Some (LW_RESULT_SUCCESS, d\<lparr>user_data := e, response := resp\<rparr>)
            else lw_wait_for_next_response (d\<lparr>user_data := e, response := resp\<rparr>) cmd 0))) \<and>
   (lw_wait_for_next_response d cmd 0 = Some (LW_RESULT_SUCCESS, dr) \<longrightarrow>
      parse_state (response dr) = LW_PARSESTATE_DONE \<and>
      (cmd = LW_ANY_COMMAND \<or> command_id (response dr) = cmd))"
proof (intro conjI impI)
  assume r: "serial_receive d (user_data d) 1 0 = ((n, byte), e)"
  have g: "(if (0 :: 32 word) \<noteq> 0 then get_time_ms d (user_data d) else (0, user_data d)) =
             (0, user_data d)" by simp
  have l: "(0 :: 32 word) = (if (0 :: 32 word) \<noteq> 0 \<and> 0 < (0 :: 32 word) then 0 - 0 else 0)"
    by simp
  note it = wait_loop_iteration [OF g l r, of cmd]
  {
    assume "sint n = 0"
    then show "lw_wait_for_next_response d cmd 0 = Some (LW_RESULT_AGAIN, d\<lparr>user_data := e\<rparr>)"
      unfolding wait_nonblocking_loop it by simp
  }
  {
    assume "sint n = - 1"
    then show "lw_wait_for_next_response d cmd 0 = Some (LW_RESULT_ERROR, d\<lparr>user_data := e\<rparr>)"
      unfolding wait_nonblocking_loop it by simp
  }
  {
    assume "0 < sint n \<and> lw_feed_response (response d) byte = Some (res, resp)"
    then show "lw_wait_for_next_response d cmd 0 =
           (if res = LW_RESULT_SUCCESS \<and> (cmd = LW_ANY_COMMAND \<or> command_id resp = cmd)
            then Some (LW_RESULT_SUCCESS, d\<lparr>user_data := e, response := resp\<rparr>)
            else lw_wait_for_next_response (d\<lparr>user_data := e, response := resp\<rparr>) cmd 0)"
      unfolding wait_nonblocking_loop it by simp
  }
next
  assume "lw_wait_for_next_response d cmd 0 = Some (LW_RESULT_SUCCESS, dr)"
  then have w: "lw_wait_loop d cmd 0 0 = Some (LW_RESULT_SUCCESS, dr)"
    by (simp only: wait_nonblocking_loop)
  from wait_loop_result [OF w]
  show "parse_state (response dr) = LW_PARSESTATE_DONE" 
    and "cmd = LW_ANY_COMMAND \<or> command_id (response dr) = cmd" by simp_all
qed

theorem wait_nonblocking_witness:
  "serial_receive
     (script_device \<lparr>clock = [], rx = [(1, 0), (0, 0)], sends = 0\<rparr>
        \<lparr>request_data = [], request_data_size = 0, request_command_id = 5\<rparr>)
     \<lparr>clock = [], rx = [(1, 0), (0, 0)], sends = 0\<rparr> 1 0 =
     ((1, 0), \<lparr>clock = [], rx = [(0, 0)], sends = 0\<rparr>) \<and>
   0 < sint (1 :: 32 word) \<and>
   lw_wait_for_next_response
     (script_device \<lparr>clock = [], rx = [(1, 0), (0, 0)], sends = 0\<rparr>
        \<lparr>request_data = [], request_data_size = 0, request_command_id = 5\<rparr>) 5 0 =
     Some (LW_RESULT_AGAIN,
       script_device \<lparr>clock = [], rx = [], sends = 0\<rparr>
        \<lparr>request_data = [], request_data_size = 0, request_command_id = 5\<rparr>)"
proof -
  let ?req = "\<lparr>request_data = [], request_data_size = 0, request_command_id = 5\<rparr>"
  let ?e0 = "\<lparr>clock = [], rx = [(1, 0), (0, 0)], sends = 0\<rparr>"
  let ?e1 = "\<lparr>clock = [], rx = [(0, 0)], sends = 0\<rparr>"
  let ?e2 = "\<lparr>clock = [], rx = [], sends = 0\<rparr>"
  let ?d0 = "script_device ?e0 ?req" and ?d1 = "script_device ?e1 ?req"
  let ?d2 = "script_device ?e2 ?req"
  note t0 = wait_nonblocking [where d = ?d0 and n = 1 and byte = 0 and e = ?e1 and cmd = 5
      and res = LW_RESULT_AGAIN and resp = "response ?d0" and dr = ?d2]
  note t1 = wait_nonblocking [where d = ?d1 and n = 0 and byte = 0 and e = ?e2 and cmd = 5
      and res = LW_RESULT_AGAIN and resp = "response ?d1" and dr = ?d2]
  have r0: "serial_receive ?d0 ?e0 1 0 = ((1, 0), ?e1)"
    by (simp add: script_device_def script_serial_receive_def)
  have r0': "serial_receive ?d0 (user_data ?d0) 1 0 = ((1, 0), ?e1)"
    by (simp add: script_device_def script_serial_receive_def)
  have p: "0 < sint (1 :: 32 word)" by simp
  have f: "lw_feed_response (response ?d0) 0 = Some (LW_RESULT_AGAIN, response ?d0)"
    by (simp add: script_device_def lw_init_response_def feed_START_other LW_PACKET_START_BYTE_def)
  have u0: "?d0\<lparr>user_data := ?e1, response := response ?d0\<rparr> = ?d1"
    by (simp add: script_device_def)
  have r1: "serial_receive ?d1 (user_data ?d1) 1 0 = ((0, 0), ?e2)"
    by (simp add: script_device_def script_serial_receive_def)
  have u1: "?d1\<lparr>user_data := ?e2\<rparr> = ?d2" by (simp add: script_device_def)
  from t0 r0' p f have "lw_wait_for_next_response ?d0 5 0 =
      lw_wait_for_next_response (?d0\<lparr>user_data := ?e1, response := response ?d0\<rparr>) 5 0"
    by simp
  also have "\<dots> = lw_wait_for_next_response ?d1 5 0" by (simp only: u0)
  also from t1 r1 have "\<dots> = Some (LW_RESULT_AGAIN, ?d1\<lparr>user_data := ?e2\<rparr>)" by simp
  finally have "lw_wait_for_next_response ?d0 5 0 = Some (LW_RESULT_AGAIN, ?d2)"
    by (simp only: u1)
  with r0 p show ?thesis by blast
qed

section \<open>Sending with retries\<close>




















end
